theory Spec2Isabelle
  imports Main "HOL-Library.Sublist"
begin

section \<open>ua2idl: the type-dependency resolver and the IDL emitter\<close>

text \<open>
  A shallow embedding of \<^verbatim>\<open>src/ua2idl.py\<close>. Python values that are either a string
  or \<^verbatim>\<open>None\<close> (the result of \<^verbatim>\<open>element.get(...)\<close> and of \<^verbatim>\<open>element.text\<close>) are
  \<open>string option\<close>. Exceptions raised by the interpreter are values of \<open>py_error\<close>. The
  \<^verbatim>\<open>OrderedDict\<close> registry is an association list in insertion order.
\<close>

subsection \<open>Constant tables (lines 7-28)\<close>

definition builtin_types :: "string list" where
  "builtin_types =
    [''Boolean'', ''SByte'', ''Byte'', ''Int16'', ''UInt16'',
     ''Int32'', ''UInt32'', ''Int64'', ''UInt64'', ''Float'',
     ''Double'', ''String'', ''DateTime'', ''Guid'', ''ByteString'',
     ''XmlElement'', ''NodeId'', ''ExpandedNodeId'', ''StatusCode'',
     ''QualifiedName'', ''LocalizedText'', ''ExtensionObject'', ''DataValue'',
     ''Variant'', ''DiagnosticInfo'']"

definition skip_types :: "string list" where
  "skip_types =
    [''FilterOperand'', ''HistoryReadDetails'', ''MonitoringFilter'',
     ''MonitoringFilterResult'', ''NotificationData'']"

definition idl_keywords :: "string list" where
  "idl_keywords =
    [''abstract'', ''exception'', ''inout'', ''provides'', ''truncatable'',
     ''any'', ''emits'', ''interface'', ''public'', ''typedef'', ''attribute'',
     ''enum'', ''local'', ''publishes'', ''typeid'', ''boolean'', ''eventtype'',
     ''long'', ''raises'', ''typeprefix'', ''case'', ''factory'', ''module'', ''readonly'',
     ''unsigned'', ''char'', ''FALSE'', ''multiple'', ''setraises'', ''union'', ''component'',
     ''finder'', ''native'', ''sequence'', ''uses'', ''const'', ''fixed'', ''Object'', ''short'',
     ''ValueBase'', ''consumes'', ''float'', ''octet'', ''string'', ''valuetype'', ''context'',
     ''getraises'', ''oneway'', ''struct'', ''void'', ''custom'', ''home'', ''out'', ''supports'',
     ''wchar'', ''default'', ''import'', ''primarykey'', ''switch'', ''wstring'', ''double'', ''in'',
     ''private'', ''TRUE'']"

subsection \<open>The identifier sanitizer (lines 30-33)\<close>

definition protected_identifier :: "string \<Rightarrow> string" where
  "protected_identifier s = (if s \<in> set idl_keywords then ''_'' @ s else s)"

subsection \<open>Input: lxml elements\<close>

text \<open>
  An element has a tag, attributes, a text and children. \<^verbatim>\<open>e.get(k)\<close> is \<^verbatim>\<open>None\<close>
  when the attribute is absent. A comment node among the children is an element whose tag
  is none of the tags the program compares with and that has no attributes.
\<close>

datatype xml = Element (tag: string) (attrib: "(string \<times> string) list")
  (xtext: "string option") (children: "xml list")

definition get :: "xml \<Rightarrow> string \<Rightarrow> string option" where
  "get e k = map_of (attrib e) k"

definition Field_tag :: string where
  "Field_tag = ''{http://opcfoundation.org/BinarySchema/}Field''"

definition Documentation_tag :: string where
  "Documentation_tag = ''{http://opcfoundation.org/BinarySchema/}Documentation''"

definition EnumeratedValue_tag :: string where
  "EnumeratedValue_tag = ''{http://opcfoundation.org/BinarySchema/}EnumeratedValue''"

definition EnumeratedType_tag :: string where
  "EnumeratedType_tag = ''{http://opcfoundation.org/BinarySchema/}EnumeratedType''"

definition OpaqueType_tag :: string where
  "OpaqueType_tag = ''{http://opcfoundation.org/BinarySchema/}OpaqueType''"

definition StructuredType_tag :: string where
  "StructuredType_tag = ''{http://opcfoundation.org/BinarySchema/}StructuredType''"

text \<open>Python's truth value of \<^verbatim>\<open>e.get(k)\<close>: \<^verbatim>\<open>None\<close> and the empty string are false.\<close>

definition truthy :: "string option \<Rightarrow> bool" where
  "truthy v = (case v of None \<Rightarrow> False | Some s \<Rightarrow> s \<noteq> [])"

datatype py_error = TypeError | AttributeError

subsection \<open>The type model (lines 35-81)\<close>

datatype 't StructMember =
  StructMember (member_name: "string option") (memberType: 't) (isArray: bool)

datatype Type =
    BuiltinType (name: string) (description: "string option")
  | EnumerationType (name: string) (description: "string option")
      (elements: "(string \<times> string option) list")
  | OpaqueType (name: string) (description: "string option")
  | StructType (name: string) (description: "string option")
      (members: "(string option \<times> Type StructMember) list")

text \<open>
  The constructors of the classes. \<^verbatim>\<open>Type.__init__\<close> (inherited by \<^verbatim>\<open>BuiltinType\<close>
  and \<^verbatim>\<open>OpaqueType\<close>) stores the name as it is; \<^verbatim>\<open>EnumerationType\<close>, \<^verbatim>\<open>StructType\<close>
  and \<^verbatim>\<open>StructMember\<close> store the sanitized name. \<^verbatim>\<open>protected_identifier(None)\<close> is
  \<^verbatim>\<open>None\<close>, and \<^verbatim>\<open>protected_identifier(memberType)\<close> of a \<^verbatim>\<open>Type\<close> object is that
  object (an object is equal to no string of the keyword list).
\<close>

definition new_BuiltinType :: "string \<Rightarrow> Type" where
  "new_BuiltinType n = BuiltinType n (Some [])"

definition new_OpaqueType :: "string \<Rightarrow> string option \<Rightarrow> Type" where
  "new_OpaqueType n d = OpaqueType n d"

definition new_EnumerationType ::
  "string \<Rightarrow> string option \<Rightarrow> (string \<times> string option) list \<Rightarrow> Type" where
  "new_EnumerationType n d els = EnumerationType (protected_identifier n) d els"

definition new_StructType ::
  "string \<Rightarrow> string option \<Rightarrow> (string option \<times> Type StructMember) list \<Rightarrow> Type" where
  "new_StructType n d ms = StructType (protected_identifier n) d ms"

definition new_StructMember :: "string option \<Rightarrow> Type \<Rightarrow> bool \<Rightarrow> Type StructMember" where
  "new_StructMember n t a = StructMember (map_option protected_identifier n) t a"

subsection \<open>The registry: an insertion-ordered dictionary\<close>

text \<open>
  \<^verbatim>\<open>types[k] = v\<close> on an \<^verbatim>\<open>OrderedDict\<close>: a new key is appended at the end, an
  existing key keeps its position and gets the new value.
\<close>

type_synonym registry = "(string \<times> Type) list"

fun setitem :: "'k \<Rightarrow> 'v \<Rightarrow> ('k \<times> 'v) list \<Rightarrow> ('k \<times> 'v) list" where
  "setitem k v [] = [(k, v)]"
| "setitem k v ((k', v') # kvs) =
     (if k' = k then (k, v) # kvs else (k', v') # setitem k v kvs)"

definition keys :: "('k \<times> 'v) list \<Rightarrow> 'k list" where
  "keys d = map fst d"

text \<open>Lines 89-91: the registry is seeded with the builtin types.\<close>

definition seed_types :: registry where
  "seed_types = fold (\<lambda>t types. setitem t (new_BuiltinType t) types) builtin_types []"

subsection \<open>Helpers of the resolver (lines 94-106)\<close>

text \<open>
  \<^verbatim>\<open>re.search("NodeId$", name)\<close>: in Python \<^verbatim>\<open>$\<close> matches at the end of the string and
  also just before a newline that is the last character of the string.
\<close>

definition re_search_NodeId_end :: "string \<Rightarrow> bool" where
  "re_search_NodeId_end s =
     (suffix ''NodeId'' s \<or> suffix (''NodeId'' @ [CHR 0x0A]) s)"

text \<open>
  \<^verbatim>\<open>skipType\<close> on a string. On \<^verbatim>\<open>None\<close> the two list tests are false and
  \<^verbatim>\<open>"Test" in None\<close> raises TypeError; the caller below has that branch.
\<close>

definition skipType :: "string \<Rightarrow> bool" where
  "skipType n =
     (if n \<in> set builtin_types then True
      else if n \<in> set skip_types then True
      else if sublist ''Test'' n then True
      else if re_search_NodeId_end n then True
      else False)"

text \<open>\<^verbatim>\<open>tn[tn.find(":")+1:]\<close>: what follows the first colon, or all of it without one.
  The closure \<^verbatim>\<open>typeReady\<close> (lines 108-114) is called nowhere and has no model.\<close>

definition stripTypename :: "string \<Rightarrow> string" where
  "stripTypename tn =
     (case dropWhile (\<lambda>c. c \<noteq> CHR '':'') tn of [] \<Rightarrow> tn | c # rest \<Rightarrow> rest)"

subsection \<open>Parsing one record (lines 116-160)\<close>

text \<open>
  The three parsers are closures called from the main loop only, after the loop has read
  \<^verbatim>\<open>name = typeXml.get("Name")\<close> and \<^verbatim>\<open>skipType(name)\<close> has returned; they read the
  same attribute again, so the model hands them that string.
\<close>

definition last_documentation :: "xml list \<Rightarrow> string option" where
  "last_documentation cs =
     fold (\<lambda>child d. if tag child = Documentation_tag then xtext child else d) cs (Some [])"

text \<open>
  Lines 119-124. \<^verbatim>\<open>name + "_" + child.get("Name")\<close> raises TypeError when the child
  has no Name.
\<close>

fun enum_elements ::
  "string \<Rightarrow> xml list \<Rightarrow> (string \<times> string option) list \<Rightarrow>
   py_error + (string \<times> string option) list" where
  "enum_elements n [] els = Inr els"
| "enum_elements n (child # rest) els =
     (if tag child = EnumeratedValue_tag then
        (case get child ''Name'' of
           None \<Rightarrow> Inl TypeError
         | Some e \<Rightarrow> enum_elements n rest (setitem (n @ ''_'' @ e) (get child ''Value'') els))
      else enum_elements n rest els)"

definition parseEnumeration :: "string \<Rightarrow> xml \<Rightarrow> py_error + Type" where
  "parseEnumeration n typeXml =
     (case enum_elements n (children typeXml) [] of
        Inl e \<Rightarrow> Inl e
      | Inr els \<Rightarrow>
          Inr (new_EnumerationType n (last_documentation (children typeXml)) els))"

definition parseOpaque :: "string \<Rightarrow> xml \<Rightarrow> Type" where
  "parseOpaque n typeXml = new_OpaqueType n (last_documentation (children typeXml))"

text \<open>Lines 143-146: the length fields are collected from every child.\<close>

definition lengthfields :: "xml list \<Rightarrow> string list" where
  "lengthfields cs =
     concat (map (\<lambda>child. case get child ''LengthField'' of
                             None \<Rightarrow> []
                           | Some l \<Rightarrow> if l \<noteq> [] then [l] else []) cs)"

text \<open>
  Lines 147-159. The result \<open>Inr None\<close> is the \<^verbatim>\<open>return None\<close> of a missing member
  type; \<^verbatim>\<open>stripTypename(None)\<close> raises AttributeError.
\<close>

fun struct_members ::
  "registry \<Rightarrow> string list \<Rightarrow> xml list \<Rightarrow> (string option \<times> Type StructMember) list \<Rightarrow>
   py_error + (string option \<times> Type StructMember) list option" where
  "struct_members types lfs [] ms = Inr (Some ms)"
| "struct_members types lfs (child # rest) ms =
     (if tag child \<noteq> Field_tag then struct_members types lfs rest ms
      else if get child ''Name'' \<in> Some ` set lfs then struct_members types lfs rest ms
      else
        (case get child ''TypeName'' of
           None \<Rightarrow> Inl AttributeError
         | Some tn \<Rightarrow>
             (case map_of types (stripTypename tn) of
                None \<Rightarrow> Inr None
              | Some mt \<Rightarrow>
                  struct_members types lfs rest
                    (setitem (get child ''Name'')
                       (new_StructMember (get child ''Name'') mt
                          (truthy (get child ''LengthField''))) ms))))"

definition parseStructured :: "registry \<Rightarrow> string \<Rightarrow> xml \<Rightarrow> py_error + Type option" where
  "parseStructured types n typeXml =
     (case struct_members types (lengthfields (children typeXml)) (children typeXml) [] of
        Inl e \<Rightarrow> Inl e
      | Inr None \<Rightarrow> Inr None
      | Inr (Some ms) \<Rightarrow>
          Inr (Some (new_StructType n (last_documentation (children typeXml)) ms)))"

subsection \<open>The fixpoint loop (lines 162-181)\<close>

text \<open>
  One iteration of the \<^verbatim>\<open>for\<close> loop, on the registry and the flag \<^verbatim>\<open>finished\<close>.
  A record without Name is in no registry, and \<^verbatim>\<open>skipType(None)\<close> raises TypeError.
\<close>

definition process :: "xml \<Rightarrow> registry \<times> bool \<Rightarrow> py_error + registry \<times> bool" where
  "process typeXml st =
     (case st of (types, finished) \<Rightarrow>
        (case get typeXml ''Name'' of
           None \<Rightarrow> Inl TypeError
         | Some n \<Rightarrow>
             if n \<in> set (keys types) \<or> skipType n then Inr (types, finished)
             else if tag typeXml = EnumeratedType_tag then
               (case parseEnumeration n typeXml of
                  Inl e \<Rightarrow> Inl e
                | Inr t \<Rightarrow> Inr (setitem (name t) t types, finished))
             else if tag typeXml = OpaqueType_tag then
               (let t = parseOpaque n typeXml in Inr (setitem (name t) t types, finished))
             else if tag typeXml = StructuredType_tag then
               (case parseStructured types n typeXml of
                  Inl e \<Rightarrow> Inl e
                | Inr None \<Rightarrow> Inr (types, False)
                | Inr (Some t) \<Rightarrow> Inr (setitem (name t) t types, finished))
             else Inr (types, finished)))"

text \<open>One pass of the \<^verbatim>\<open>for\<close> loop over all records; an exception ends it.\<close>

fun pass :: "xml list \<Rightarrow> registry \<times> bool \<Rightarrow> py_error + registry \<times> bool" where
  "pass [] st = Inr st"
| "pass (typeXml # rest) st =
     (case process typeXml st of Inl e \<Rightarrow> Inl e | Inr st' \<Rightarrow> pass rest st')"

text \<open>
  The \<^verbatim>\<open>while\<close> loop. It may run forever: the result \<open>None\<close> is a run that never
  returns, \<open>Some (Inl e)\<close> an uncaught exception, \<open>Some (Inr types)\<close> the returned registry.
\<close>

partial_function (option) resolve :: "xml list \<Rightarrow> registry \<Rightarrow> (py_error + registry) option" where
  "resolve typeSnippets types =
     (case pass typeSnippets (types, True) of
        Inl e \<Rightarrow> Some (Inl e)
      | Inr (types', finished) \<Rightarrow>
          if finished then Some (Inr types') else resolve typeSnippets types')"

text \<open>
  \<^verbatim>\<open>parseTypeDefinitions\<close> on the records that the XPath query of line 88 selects.
\<close>

definition parseTypeDefinitions :: "xml list \<Rightarrow> (py_error + registry) option" where
  "parseTypeDefinitions typeSnippets = resolve typeSnippets seed_types"

subsection \<open>The emitter (lines 52-81 and 395-400)\<close>

text \<open>
  \<^verbatim>\<open>typedef_idl\<close> returns \<^verbatim>\<open>None\<close> for a builtin type (the method of \<^verbatim>\<open>Type\<close> is
  \<^verbatim>\<open>pass\<close>). String concatenation with a member name that is \<^verbatim>\<open>None\<close> raises
  TypeError.
\<close>

fun struct_lines :: "Type StructMember list \<Rightarrow> string \<Rightarrow> py_error + string" where
  "struct_lines [] tdef = Inr tdef"
| "struct_lines (m # ms) tdef =
     (case member_name m of
        None \<Rightarrow> Inl TypeError
      | Some mn \<Rightarrow>
          if isArray m then
            struct_lines ms
              (tdef @ [CHR 0x09, CHR 0x09] @ ''ListOf'' @ name (memberType m) @ '' '' @ mn @
                 '';'' @ [CHR 0x0A])
          else
            struct_lines ms
              (tdef @ [CHR 0x09, CHR 0x09] @ name (memberType m) @ '' '' @ mn @
                 '';'' @ [CHR 0x0A]))"

definition enum_lines :: "string list \<Rightarrow> string \<Rightarrow> string" where
  "enum_lines els tdef =
     fold (\<lambda>el tdef. tdef @ [CHR 0x09, CHR 0x09] @ protected_identifier el @ '', '' @ [CHR 0x0A])
       els tdef"

fun typedef_idl :: "Type \<Rightarrow> py_error + string option" where
  "typedef_idl (BuiltinType n d) = Inr None"
| "typedef_idl (EnumerationType n d els) =
     (let tdef = enum_lines (keys els) ([CHR 0x09] @ ''enum '' @ n @ '' {'' @ [CHR 0x0A])
      in Inr (Some (take (length tdef - 3) tdef @ [CHR 0x0A, CHR 0x09] @ ''};'')))"
| "typedef_idl (OpaqueType n d) =
     Inr (Some ([CHR 0x09] @ ''typedef ByteString '' @ protected_identifier n @ '';''))"
| "typedef_idl (StructType n d ms) =
     (case struct_lines (map snd ms) ([CHR 0x09] @ '' struct '' @ n @ '' {'' @ [CHR 0x0A]) of
        Inl e \<Rightarrow> Inl e
      | Inr tdef \<Rightarrow> Inr (Some (tdef @ [CHR 0x09] @ ''};'')))"

text \<open>\<^verbatim>\<open>print\<close> of a string, or of \<^verbatim>\<open>None\<close>.\<close>

definition printed :: "string option \<Rightarrow> string" where
  "printed v = (case v of None \<Rightarrow> ''None'' | Some s \<Rightarrow> s)"

definition list_wrapper :: "string \<Rightarrow> string" where
  "list_wrapper n =
     [CHR 0x09] @ ''union ListOf'' @ n @ '' switch(boolean) { case true: sequence<'' @ n @
       ''> Content; };'' @ [CHR 0x0A]"

text \<open>
  The loop of lines 395-400: the strings handed to \<^verbatim>\<open>printidl\<close>, in order, and the
  exception that ended the loop, if any. \<^verbatim>\<open>printidl\<close> writes each string and a newline
  to the output file; the fixed prelude (lines 196-393) is written before the loop and the
  closing line after it.
\<close>

fun emit :: "registry \<Rightarrow> string list \<times> py_error option" where
  "emit [] = ([], None)"
| "emit ((n, t) # rest) =
     (if n \<in> set builtin_types then emit rest
      else
        (case typedef_idl t of
           Inl e \<Rightarrow> ([], Some e)
         | Inr d \<Rightarrow> (case emit rest of (ls, r) \<Rightarrow> (printed d # list_wrapper n # ls, r))))"

subsection \<open>The declarations as the specification describes them\<close>

text \<open>
  The enumerated-value declaration of the specification: the name, then, between braces,
  the case labels in order, each on a line of its own, separated by commas. Written from
  the specification's words, to be compared with \<open>typedef_idl\<close>.
\<close>

fun join_labels :: "string list \<Rightarrow> string" where
  "join_labels [] = []"
| "join_labels [l] = [CHR 0x09, CHR 0x09] @ l"
| "join_labels (l # ls) = [CHR 0x09, CHR 0x09] @ l @ '', '' @ [CHR 0x0A] @ join_labels ls"

definition enum_declaration_spec :: "string \<Rightarrow> string list \<Rightarrow> string" where
  "enum_declaration_spec n labels =
     [CHR 0x09] @ ''enum '' @ n @ '' {'' @ [CHR 0x0A] @ join_labels labels @
     [CHR 0x0A, CHR 0x09] @ ''};''"

text \<open>
  The remaining fields of a Structured record, in the specification's words: the Field
  children that are not the repeat-count holder of any child. A member line of the record
  declaration is \<open>ListOf<MemberType> <MemberName>\<close> for an array and
  \<open><MemberType> <MemberName>\<close> otherwise.
\<close>

definition kept_fields :: "xml list \<Rightarrow> xml list" where
  "kept_fields cs =
     filter (\<lambda>c. tag c = Field_tag \<and> get c ''Name'' \<notin> Some ` set (lengthfields cs)) cs"

definition member_line :: "bool \<Rightarrow> string \<Rightarrow> string \<Rightarrow> string" where
  "member_line array mtype mname =
     [CHR 0x09, CHR 0x09] @ (if array then ''ListOf'' else []) @ mtype @ '' '' @ mname @
       '';'' @ [CHR 0x0A]"

text \<open>
  The definition order of the specification: going through the registry from the front,
  the type of every member of a structure is the value of an entry met before.
\<close>

fun definition_order_from :: "Type list \<Rightarrow> registry \<Rightarrow> bool" where
  "definition_order_from seen [] = True"
| "definition_order_from seen ((k, t) # rest) =
     ((case t of
         StructType n d ms \<Rightarrow> list_all (\<lambda>km. memberType (snd km) \<in> set seen) ms
       | _ \<Rightarrow> True) \<and>
      definition_order_from (seen @ [t]) rest)"

definition definition_order :: "registry \<Rightarrow> bool" where
  "definition_order R = definition_order_from [] R"

subsection \<open>Records with all the attributes the parsers read\<close>

text \<open>
  Every record has a Name, every EnumeratedValue child a Name and every Field child a
  TypeName: on such records no line of the resolver raises.
\<close>

definition attributes_present :: "xml list \<Rightarrow> bool" where
  "attributes_present recs =
     list_all (\<lambda>x. get x ''Name'' \<noteq> None \<and>
        list_all (\<lambda>c. (tag c = EnumeratedValue_tag \<longrightarrow> get c ''Name'' \<noteq> None) \<and>
                      (tag c = Field_tag \<longrightarrow> get c ''TypeName'' \<noteq> None)) (children x)) recs"

subsection \<open>Example records\<close>

definition example_field :: "string \<Rightarrow> string \<Rightarrow> xml" where
  "example_field n t = Element Field_tag [(''Name'', n), (''TypeName'', t)] None []"

definition example_struct :: "string \<Rightarrow> xml list \<Rightarrow> xml" where
  "example_struct n cs = Element StructuredType_tag [(''Name'', n)] None cs"

definition example_opaque :: "string \<Rightarrow> xml" where
  "example_opaque n = Element OpaqueType_tag [(''Name'', n)] None []"

definition example_value :: "string \<Rightarrow> string \<Rightarrow> xml" where
  "example_value n v = Element EnumeratedValue_tag [(''Name'', n), (''Value'', v)] None []"

definition example_enum :: "string \<Rightarrow> xml list \<Rightarrow> xml" where
  "example_enum n cs = Element EnumeratedType_tag [(''Name'', n)] None cs"

definition example_array_field :: "string \<Rightarrow> string \<Rightarrow> string \<Rightarrow> xml" where
  "example_array_field n t l =
     Element Field_tag [(''Name'', n), (''TypeName'', t), (''LengthField'', l)] None []"

subsection \<open>The sanitizer's contract\<close>

lemma keyword_no_underscore: "k \<in> set idl_keywords \<Longrightarrow> hd k \<noteq> CHR ''_''"
  by (auto simp: idl_keywords_def)

lemma escaped_not_keyword: "''_'' @ s \<notin> set idl_keywords"
  using keyword_no_underscore [of "''_'' @ s"] by auto

text \<open>
  C8. The sanitizer is a total function: a reserved word is returned prefixed with
  an underscore, which differs from the word and is not reserved; any other string is
  returned unchanged.
\<close>

theorem protected_identifier_contract:
  "(s \<in> set idl_keywords \<longrightarrow>
      protected_identifier s = ''_'' @ s \<and> protected_identifier s \<noteq> s \<and>
      protected_identifier s \<notin> set idl_keywords) \<and>
   (s \<notin> set idl_keywords \<longrightarrow> protected_identifier s = s)"
  using escaped_not_keyword [of s] by (simp add: protected_identifier_def)

theorem protected_identifier_contract_witness:
  "''string'' \<in> set idl_keywords \<and> protected_identifier ''string'' = ''_string'' \<and>
   protected_identifier ''string'' \<noteq> ''string'' \<and>
   protected_identifier ''string'' \<notin> set idl_keywords \<and>
   ''Color'' \<notin> set idl_keywords \<and> protected_identifier ''Color'' = ''Color''"
proof -
  have k: "''string'' \<in> set idl_keywords" by (simp add: idl_keywords_def)
  have n: "''Color'' \<notin> set idl_keywords" by (simp add: idl_keywords_def)
  from protected_identifier_contract [of "''string''"] k
  have a: "protected_identifier ''string'' = ''_'' @ ''string''"
    and b: "protected_identifier ''string'' \<noteq> ''string''"
    and c: "protected_identifier ''string'' \<notin> set idl_keywords"
    by blast+
  from protected_identifier_contract [of "''Color''"] n
  have d: "protected_identifier ''Color'' = ''Color''" by blast
  from a have a': "protected_identifier ''string'' = ''_string''" by simp
  from k a' b c n d show ?thesis by blast
qed

text \<open>
  C10. The sanitizer is idempotent: sanitizing a sanitized name changes nothing.
\<close>

theorem protected_identifier_idempotent:
  "protected_identifier (protected_identifier s) = protected_identifier s"
  using escaped_not_keyword [of s] by (simp add: protected_identifier_def)

subsection \<open>Facts about the registry and the helpers\<close>

lemma seed_types_eq: "seed_types = map (\<lambda>t. (t, new_BuiltinType t)) builtin_types"
  by (simp add: seed_types_def builtin_types_def)

lemma keys_seed_types: "keys seed_types = builtin_types"
  by (simp add: seed_types_eq keys_def comp_def)

lemma setitem_new: "k \<notin> set (keys d) \<Longrightarrow> setitem k v d = d @ [(k, v)]"
  by (induction d) (auto simp: keys_def)

lemma keys_setitem:
  "keys (setitem k v d) = (if k \<in> set (keys d) then keys d else keys d @ [k])"
  by (induction d) (force simp: keys_def)+

lemma set_keys_setitem: "set (keys (setitem k v d)) = insert k (set (keys d))"
  by (auto simp: keys_setitem)

lemma map_of_keys: "(map_of d k = None) = (k \<notin> set (keys d))"
  by (simp add: keys_def map_of_eq_None_iff)

lemma struct_members_ready:
  assumes "\<forall>c\<in>set cs. tag c = Field_tag \<longrightarrow>
             (\<exists>t. get c ''TypeName'' = Some t \<and> stripTypename t \<in> set (keys types))"
  shows "\<exists>ms'. struct_members types lfs cs ms = Inr (Some ms')"
  using assms
proof (induction cs arbitrary: ms)
  case Nil
  then show ?case by simp
next
  case (Cons c cs)
  show ?case
  proof (cases "tag c = Field_tag \<and> get c ''Name'' \<notin> Some ` set lfs")
    case True
    with Cons.prems obtain t where t: "get c ''TypeName'' = Some t"
      "stripTypename t \<in> set (keys types)" by auto
    then obtain mt where "map_of types (stripTypename t) = Some mt"
      using map_of_keys [of types "stripTypename t"] by auto
    with True t Cons show ?thesis by simp
  next
    case False
    with Cons show ?thesis by auto
  qed
qed

lemma not_skip_A: "\<not> skipType ''A''" 
  by (simp add: skipType_def builtin_types_def skip_types_def re_search_NodeId_end_def sublist_code suffix_to_prefix)

lemma not_skip_B: "\<not> skipType ''B''" 
  by (simp add: skipType_def builtin_types_def skip_types_def re_search_NodeId_end_def sublist_code suffix_to_prefix)

lemma tags_distinct:
  "StructuredType_tag \<noteq> EnumeratedType_tag" "StructuredType_tag \<noteq> OpaqueType_tag"
  "OpaqueType_tag \<noteq> EnumeratedType_tag"
  by (simp_all add: StructuredType_tag_def EnumeratedType_tag_def OpaqueType_tag_def)

lemma A_not_builtin: "''A'' \<notin> set builtin_types" "''B'' \<notin> set builtin_types"
  by (simp_all add: builtin_types_def)

lemma A_not_keyword: "protected_identifier ''A'' = ''A''" "protected_identifier ''B'' = ''B''"
  by (simp_all add: protected_identifier_def idl_keywords_def)

subsection \<open>The forward-dependency scenario\<close>

text \<open>
  C3. On the records [Structured B with a field of type A (not a length-field holder),
  Structured A whose fields all have builtin types], the first pass defers B and inserts
  A, the second pass inserts B, the loop ends, and the registry returned is the seeded
  one followed by A and then B.
\<close>

theorem forward_dependency_scenario:
  assumes B: "tag B = StructuredType_tag" "get B ''Name'' = Some ''B''" "children B = [f]"
    and f: "tag f = Field_tag" "get f ''TypeName'' = Some tn" "stripTypename tn = ''A''"
      "get f ''Name'' \<notin> Some ` set (lengthfields [f])"
    and A: "tag A = StructuredType_tag" "get A ''Name'' = Some ''A''"
      "\<forall>c\<in>set (children A). tag c = Field_tag \<longrightarrow>
         (\<exists>t. get c ''TypeName'' = Some t \<and> stripTypename t \<in> set builtin_types)"
  shows "\<exists>TA TB.
    parseStructured seed_types ''B'' B = Inr None \<and>
    parseStructured seed_types ''A'' A = Inr (Some TA) \<and>
    pass [B, A] (seed_types, True) = Inr (seed_types @ [(''A'', TA)], False) \<and>
    parseStructured (seed_types @ [(''A'', TA)]) ''B'' B = Inr (Some TB) \<and>
    pass [B, A] (seed_types @ [(''A'', TA)], True) =
      Inr (seed_types @ [(''A'', TA), (''B'', TB)], True) \<and>
    parseTypeDefinitions [B, A] = Some (Inr (seed_types @ [(''A'', TA), (''B'', TB)])) \<and>
    name TA = ''A'' \<and> name TB = ''B'' \<and> map (memberType \<circ> snd) (members TB) = [TA]"
proof -
  from A(3) obtain msA where msA:
    "struct_members seed_types (lengthfields (children A)) (children A) [] = Inr (Some msA)"
    using struct_members_ready [of "children A" seed_types "lengthfields (children A)" "[]"]
    by (auto simp: keys_seed_types)
  define TA where "TA = new_StructType ''A'' (last_documentation (children A)) msA"
  define TB where "TB = new_StructType ''B'' (last_documentation [f])
    [(get f ''Name'', new_StructMember (get f ''Name'') TA (truthy (get f ''LengthField'')))]"
  define R1 where "R1 = seed_types @ [(''A'', TA)]"
  define R2 where "R2 = seed_types @ [(''A'', TA), (''B'', TB)]"
  have nA: "name TA = ''A''" and nB: "name TB = ''B''"
    by (simp_all add: TA_def TB_def new_StructType_def A_not_keyword)
  have kA: "''A'' \<notin> set (keys seed_types)" and kB: "''B'' \<notin> set (keys seed_types)"
    by (simp_all add: keys_seed_types A_not_builtin)
  have kR1: "keys R1 = builtin_types @ [''A'']"
    by (simp add: R1_def keys_def keys_seed_types [unfolded keys_def])
  have kB1: "''B'' \<notin> set (keys R1)" and kA1: "''A'' \<in> set (keys R1)"
    by (simp_all add: kR1 A_not_builtin)
  have pA: "parseStructured seed_types ''A'' A = Inr (Some TA)"
    by (simp add: parseStructured_def msA TA_def)
  have "map_of seed_types ''A'' = None"
    using kA by (simp add: map_of_keys)
  then have pB1: "parseStructured seed_types ''B'' B = Inr None"
    using B f by (simp add: parseStructured_def)
  have "map_of R1 ''A'' = Some TA"
    using kA by (simp add: R1_def map_of_keys [symmetric] map_add_def)
  then have pB2: "parseStructured R1 ''B'' B = Inr (Some TB)"
    using B f by (simp add: parseStructured_def TB_def)
  have s1: "process B (seed_types, True) = Inr (seed_types, False)"
    using B kB pB1 by (simp add: process_def not_skip_B tags_distinct)
  have s2: "process A (seed_types, False) = Inr (R1, False)"
    using A kA pA nA by (simp add: process_def not_skip_A tags_distinct setitem_new R1_def)
  have pass1: "pass [B, A] (seed_types, True) = Inr (R1, False)"
    by (simp add: s1 s2)
  have s3: "process B (R1, True) = Inr (R2, True)"
    using B kB1 pB2 nB
    by (simp add: process_def not_skip_B tags_distinct setitem_new) (simp add: R1_def R2_def)
  have s4: "process A (R2, True) = Inr (R2, True)"
    using A kA1 by (simp add: process_def R1_def R2_def keys_def)
  have pass2: "pass [B, A] (R1, True) = Inr (R2, True)"
    by (simp add: s3 s4)
  have r2: "resolve [B, A] R1 = Some (Inr R2)"
    by (subst resolve.simps) (simp add: pass2 del: pass.simps)
  have r1: "resolve [B, A] seed_types = resolve [B, A] R1"
    by (subst resolve.simps) (simp add: pass1 del: pass.simps)
  have res: "parseTypeDefinitions [B, A] = Some (Inr R2)"
    by (simp add: parseTypeDefinitions_def r1 r2)
  have mem: "map (memberType \<circ> snd) (members TB) = [TA]"
    by (simp add: TB_def new_StructType_def new_StructMember_def)
  note facts = pB1 pA pass1 pB2 pass2 res nA nB mem
  show ?thesis
    by (rule exI [of _ TA], rule exI [of _ TB])
       (simp only: facts [unfolded R1_def R2_def] simp_thms)
qed

theorem forward_dependency_scenario_witness:
  "parseTypeDefinitions
     [example_struct ''B'' [example_field ''a'' ''tns:A''],
      example_struct ''A'' [example_field ''x'' ''opc:Int32'']] =
   Some (Inr (seed_types @
     [(''A'', StructType ''A'' (Some [])
         [(Some ''x'', StructMember (Some ''x'') (BuiltinType ''Int32'' (Some [])) False)]),
      (''B'', StructType ''B'' (Some [])
         [(Some ''a'', StructMember (Some ''a'')
            (StructType ''A'' (Some [])
              [(Some ''x'', StructMember (Some ''x'') (BuiltinType ''Int32'' (Some [])) False)])
            False)])]))"
proof -
  let ?f = "example_field ''a'' ''tns:A''"
  let ?B = "example_struct ''B'' [?f]"
  let ?A = "example_struct ''A'' [example_field ''x'' ''opc:Int32'']"
  have h1: "tag ?B = StructuredType_tag" "get ?B ''Name'' = Some ''B''" "children ?B = [?f]"
    by (simp_all add: example_struct_def get_def)
  have h2: "tag ?f = Field_tag" "get ?f ''TypeName'' = Some ''tns:A''"
    "stripTypename ''tns:A'' = ''A''" "get ?f ''Name'' \<notin> Some ` set (lengthfields [?f])"
    by (simp_all add: example_field_def get_def stripTypename_def lengthfields_def)
  have h3: "tag ?A = StructuredType_tag" "get ?A ''Name'' = Some ''A''"
    "\<forall>c\<in>set (children ?A). tag c = Field_tag \<longrightarrow>
       (\<exists>t. get c ''TypeName'' = Some t \<and> stripTypename t \<in> set builtin_types)"
    by (simp_all add: example_struct_def example_field_def get_def stripTypename_def
        builtin_types_def)
  from forward_dependency_scenario [OF h1 h2 h3] obtain TA TB where
    a: "parseStructured seed_types ''A'' ?A = Inr (Some TA)" and
    b: "parseStructured (seed_types @ [(''A'', TA)]) ''B'' ?B = Inr (Some TB)" and
    r: "parseTypeDefinitions [?B, ?A] = Some (Inr (seed_types @ [(''A'', TA), (''B'', TB)]))"
    by blast
  have m: "map_of seed_types ''Int32'' = Some (BuiltinType ''Int32'' (Some []))"
    by (simp add: seed_types_eq builtin_types_def new_BuiltinType_def)
  have "parseStructured seed_types ''A'' ?A = Inr (Some (StructType ''A'' (Some [])
         [(Some ''x'', StructMember (Some ''x'') (BuiltinType ''Int32'' (Some [])) False)]))"
    by (simp add: parseStructured_def example_struct_def example_field_def get_def
        lengthfields_def Field_tag_def stripTypename_def m new_StructType_def
        new_StructMember_def truthy_def last_documentation_def Documentation_tag_def
        A_not_keyword protected_identifier_def idl_keywords_def)
  with a have TA: "TA = StructType ''A'' (Some [])
         [(Some ''x'', StructMember (Some ''x'') (BuiltinType ''Int32'' (Some [])) False)]"
    by simp
  have "map_of seed_types ''A'' = None"
    using A_not_builtin by (simp add: map_of_keys keys_seed_types)
  then have m2: "map_of (seed_types @ [(''A'', TA)]) ''A'' = Some TA"
    by (simp add: map_add_def)
  have "parseStructured (seed_types @ [(''A'', TA)]) ''B'' ?B = Inr (Some (StructType ''B'' (Some [])
         [(Some ''a'', StructMember (Some ''a'') TA False)]))"
    by (simp add: parseStructured_def example_struct_def example_field_def get_def
        lengthfields_def Field_tag_def stripTypename_def m2 new_StructType_def
        new_StructMember_def truthy_def last_documentation_def Documentation_tag_def
        A_not_keyword protected_identifier_def idl_keywords_def del: map_of_append)
  with b have TB: "TB = StructType ''B'' (Some []) [(Some ''a'', StructMember (Some ''a'') TA False)]"
    by simp
  from r show ?thesis unfolding TB unfolding TA .
qed

subsection \<open>What one record does to the registry\<close>

lemma name_parseEnumeration: "parseEnumeration n r = Inr t \<Longrightarrow> name t = protected_identifier n"
  by (auto simp: parseEnumeration_def new_EnumerationType_def split: sum.splits)

lemma name_parseOpaque: "name (parseOpaque n r) = n"
  by (simp add: parseOpaque_def new_OpaqueType_def)

lemma name_parseStructured:
  "parseStructured types n r = Inr (Some t) \<Longrightarrow> name t = protected_identifier n"
  by (auto simp: parseStructured_def new_StructType_def split: sum.splits option.splits)

lemma process_cases:
  assumes "process r (types, fin) = Inr (types', fin')"
  obtains (unchanged) "types' = types" "fin' \<longrightarrow> fin"
  | (inserted) n t where "get r ''Name'' = Some n" "\<not> skipType n" "n \<notin> set (keys types)"
      "name t = n \<or> name t = protected_identifier n"
      "types' = setitem (name t) t types" "fin' = fin"
proof (cases "get r ''Name''")
  case None
  with assms show ?thesis by (simp add: process_def)
next
  case (Some n)
  show ?thesis
  proof (cases "n \<in> set (keys types) \<or> skipType n")
    case True
    with assms Some have "types' = types" "fin' = fin" by (simp_all add: process_def)
    then show ?thesis using unchanged by simp
  next
    case False
    then have n: "\<not> skipType n" "n \<notin> set (keys types)" by simp_all
    consider (e) "tag r = EnumeratedType_tag"
      | (o) "tag r \<noteq> EnumeratedType_tag" "tag r = OpaqueType_tag"
      | (s) "tag r \<noteq> EnumeratedType_tag" "tag r \<noteq> OpaqueType_tag" "tag r = StructuredType_tag"
      | (other) "tag r \<noteq> EnumeratedType_tag" "tag r \<noteq> OpaqueType_tag"
          "tag r \<noteq> StructuredType_tag"
      by blast
    then show ?thesis
    proof cases
      case e
      with assms Some False obtain t where t: "parseEnumeration n r = Inr t"
        "types' = setitem (name t) t types" "fin' = fin"
        by (auto simp: process_def split: sum.splits)
      from name_parseEnumeration [OF t(1)] t(2,3) show ?thesis
        by (intro inserted [OF Some n, of t]) simp_all
    next
      case o
      with assms Some False have "types' = setitem (name (parseOpaque n r)) (parseOpaque n r) types"
        "fin' = fin"
        by (auto simp: process_def Let_def)
      with name_parseOpaque [of n r] show ?thesis
        by (intro inserted [OF Some n, of "parseOpaque n r"]) simp_all
    next
      case s
      show ?thesis
      proof (cases "parseStructured types n r")
        case (Inl e)
        with assms Some False s show ?thesis by (simp add: process_def)
      next
        case (Inr v)
        show ?thesis
        proof (cases v)
          case None
          with assms Some False s Inr have "types' = types" "fin' = False"
            by (simp_all add: process_def)
          then show ?thesis using unchanged by simp
        next
          case (Some t)
          with assms \<open>get r ''Name'' = Some n\<close> False s Inr
          have "types' = setitem (name t) t types" "fin' = fin"
            by (simp_all add: process_def)
          with name_parseStructured [of types n r t] Inr Some show ?thesis
            by (intro inserted [OF \<open>get r ''Name'' = Some n\<close> n, of t]) simp_all
        qed
      qed
    next
      case other
      with assms Some False have "types' = types" "fin' = fin" by (simp_all add: process_def)
      then show ?thesis using unchanged by simp
    qed
  qed
qed

lemma escaped_keyword_not_skipped: "k \<in> set idl_keywords \<Longrightarrow> \<not> skipType (''_'' @ k)"
  by (auto simp: idl_keywords_def skipType_def builtin_types_def skip_types_def
      re_search_NodeId_end_def sublist_code suffix_to_prefix)

lemma protected_not_skipped: "\<not> skipType n \<Longrightarrow> \<not> skipType (protected_identifier n)"
  using escaped_keyword_not_skipped [of n] by (simp add: protected_identifier_def)

subsection \<open>Invariants of a pass and of the loop\<close>

lemma pass_invariant:
  assumes step: "\<And>r types fin types' fin'.
      r \<in> set recs \<Longrightarrow> I types \<Longrightarrow> process r (types, fin) = Inr (types', fin') \<Longrightarrow> I types'"
    and "set xs \<subseteq> set recs" and "I types" and "pass xs (types, fin) = Inr (types', fin')"
  shows "I types'"
  using assms(2-)
proof (induction xs arbitrary: types fin)
  case Nil
  then show ?case by simp
next
  case (Cons x xs)
  from Cons.prems(3) obtain t1 f1 where p: "process x (types, fin) = Inr (t1, f1)"
    and q: "pass xs (t1, f1) = Inr (types', fin')"
    by (auto split: sum.splits)
  from step [OF _ Cons.prems(2) p] Cons.prems(1) have "I t1" by simp
  with Cons.IH [OF _ _ q] Cons.prems(1) show ?case by simp
qed

lemma resolve_invariant:
  assumes step: "\<And>types types' fin.
      I types \<Longrightarrow> pass recs (types, True) = Inr (types', fin) \<Longrightarrow> I types'"
    and res: "resolve recs types = Some (Inr R)" and init: "I types"
  shows "I R"
proof -
  have "rs = recs \<longrightarrow> I ts \<longrightarrow> (\<forall>R. y = Inr R \<longrightarrow> I R)"
    if "resolve rs ts = Some y" for rs ts y
  proof (rule resolve.raw_induct
      [where P = "\<lambda>rs ts y. rs = recs \<longrightarrow> I ts \<longrightarrow> (\<forall>R. y = Inr R \<longrightarrow> I R)", OF _ that])
    fix f rs ts y
    assume IH: "\<And>a b y. f a b = Some y \<Longrightarrow> a = recs \<longrightarrow> I b \<longrightarrow> (\<forall>R. y = Inr R \<longrightarrow> I R)"
      and eq: "(case pass rs (ts, True) of Inl e \<Rightarrow> Some (Inl e)
                | Inr (types', finished) \<Rightarrow>
                    if finished then Some (Inr types') else f rs types') = Some y"
    show "rs = recs \<longrightarrow> I ts \<longrightarrow> (\<forall>R. y = Inr R \<longrightarrow> I R)"
    proof (intro impI allI)
      fix R assume rs: "rs = recs" and ts: "I ts" and y: "y = Inr R"
      from eq y obtain t1 f1 where p: "pass rs (ts, True) = Inr (t1, f1)"
        by (auto split: sum.splits)
      from step [OF ts] p rs have t1: "I t1" by simp
      show "I R"
      proof (cases f1)
        case True
        with eq p y show ?thesis using t1 by simp
      next
        case False
        with eq p have "f rs t1 = Some y" by simp
        from IH [OF this] rs t1 y show ?thesis by simp
      qed
    qed
  qed
  with res init show ?thesis by blast
qed

lemma process_no_excluded:
  assumes "process r (types, fin) = Inr (types', fin')"
    and "\<forall>k\<in>set (keys types). skipType k \<longrightarrow> k \<in> set builtin_types"
  shows "\<forall>k\<in>set (keys types'). skipType k \<longrightarrow> k \<in> set builtin_types"
  using assms(1)
proof (cases rule: process_cases)
  case unchanged
  with assms(2) show ?thesis by simp
next
  case (inserted n t)
  then have "\<not> skipType (name t)" using protected_not_skipped [of n] by auto
  with inserted(5) assms(2) show ?thesis by (auto simp: set_keys_setitem)
qed

lemma seed_no_excluded: "\<forall>k\<in>set (keys seed_types). skipType k \<longrightarrow> k \<in> set builtin_types"
  by (simp add: keys_seed_types)

lemma registry_no_excluded:
  assumes "parseTypeDefinitions recs = Some (Inr R)"
  shows "\<forall>k\<in>set (keys R). skipType k \<longrightarrow> k \<in> set builtin_types"
proof (rule resolve_invariant [where I = "\<lambda>ts. \<forall>k\<in>set (keys ts). skipType k \<longrightarrow> k \<in> set builtin_types"
      and recs = recs and types = seed_types])
  show "resolve recs seed_types = Some (Inr R)"
    using assms by (simp add: parseTypeDefinitions_def)
  show "\<forall>k\<in>set (keys seed_types). skipType k \<longrightarrow> k \<in> set builtin_types"
    by (rule seed_no_excluded)
next
  fix types types' fin
  assume "\<forall>k\<in>set (keys types). skipType k \<longrightarrow> k \<in> set builtin_types"
    and "pass recs (types, True) = Inr (types', fin)"
  then show "\<forall>k\<in>set (keys types'). skipType k \<longrightarrow> k \<in> set builtin_types"
    using pass_invariant [where I = "\<lambda>ts. \<forall>k\<in>set (keys ts). skipType k \<longrightarrow> k \<in> set builtin_types"
        and recs = recs and xs = recs]
      process_no_excluded by blast
qed

lemma emit_filter:
  assumes "\<forall>k\<in>set (keys R). P k \<or> k \<in> set builtin_types"
  shows "emit (filter (\<lambda>(k, t). P k) R) = emit R"
  using assms by (induction R) (auto simp: keys_def split: sum.splits prod.splits)

lemma setitem_append_left:
  "k \<notin> set (keys a) \<Longrightarrow> setitem k v (a @ b) = a @ setitem k v b"
  by (induction a) (auto simp: keys_def)

lemma process_keeps_seed:
  assumes "process r (types, fin) = Inr (types', fin')" and "prefix seed_types types"
  shows "prefix seed_types types'"
  using assms(1)
proof (cases rule: process_cases)
  case unchanged
  with assms(2) show ?thesis by simp
next
  case (inserted n t)
  then have "\<not> skipType (name t)" using protected_not_skipped [of n] by auto
  then have k: "name t \<notin> set (keys seed_types)"
    by (auto simp: keys_seed_types skipType_def)
  from assms(2) obtain rest where "types = seed_types @ rest" by (auto simp: prefix_def)
  with inserted(5) k show ?thesis by (simp add: setitem_append_left)
qed

lemma registry_keeps_seed:
  assumes "parseTypeDefinitions recs = Some (Inr R)"
  shows "prefix seed_types R"
proof (rule resolve_invariant [where I = "prefix seed_types" and recs = recs and types = seed_types])
  show "resolve recs seed_types = Some (Inr R)"
    using assms by (simp add: parseTypeDefinitions_def)
  show "prefix seed_types seed_types" by simp
next
  fix types types' fin
  assume "prefix seed_types types" and "pass recs (types, True) = Inr (types', fin)"
  then show "prefix seed_types types'"
    using pass_invariant [where I = "prefix seed_types" and recs = recs and xs = recs]
      process_keeps_seed by blast
qed

lemmas eval_simps =
  process_def get_def keys_def skipType_def builtin_types_def skip_types_def
  re_search_NodeId_end_def sublist_code suffix_to_prefix seed_types_eq new_BuiltinType_def
  example_field_def example_struct_def example_opaque_def example_value_def example_enum_def
  example_array_field_def
  Field_tag_def Documentation_tag_def EnumeratedValue_tag_def EnumeratedType_tag_def
  OpaqueType_tag_def StructuredType_tag_def
  parseOpaque_def parseEnumeration_def parseStructured_def lengthfields_def
  last_documentation_def stripTypename_def truthy_def
  new_OpaqueType_def new_EnumerationType_def new_StructType_def new_StructMember_def
  protected_identifier_def idl_keywords_def

subsection \<open>The skip predicate\<close>

text \<open>
  C5, as the claim states it, fails: a name that ends with NodeId followed by a newline
  is excluded, although it is no builtin, is not in the exclusion list, does not contain
  Test and does not end with NodeId.
\<close>

theorem skipType_newline_counterexample:
  "skipType ''XNodeId\<newline>'' \<and> ''XNodeId\<newline>'' \<notin> set builtin_types \<and>
   ''XNodeId\<newline>'' \<notin> set skip_types \<and> \<not> sublist ''Test'' ''XNodeId\<newline>'' \<and>
   \<not> suffix ''NodeId'' ''XNodeId\<newline>''"
  by (simp add: skipType_def builtin_types_def skip_types_def re_search_NodeId_end_def
      sublist_code suffix_to_prefix)

text \<open>
  C5, amended. A record is excluded exactly when its name is a builtin type name, or is
  in the exclusion list, or contains Test, or ends with NodeId or with NodeId and one
  final newline. An excluded record leaves the registry and the flag as they are, in
  every pass. In every registry returned, the seeded builtin entries are still the first
  entries, every other key is the name of no excluded record, and the emitter prints the
  same as for the registry without the entries under excluded names.
\<close>

theorem skipType_exclusion:
  "(skipType n \<longleftrightarrow>
      n \<in> set builtin_types \<or> n \<in> set skip_types \<or> sublist ''Test'' n \<or>
      suffix ''NodeId'' n \<or> suffix ''NodeId\<newline>'' n) \<and>
   (get r ''Name'' = Some n \<and> skipType n \<longrightarrow> process r (types, fin) = Inr (types, fin)) \<and>
   (parseTypeDefinitions recs = Some (Inr R) \<longrightarrow>
      prefix seed_types R \<and>
      (\<forall>k\<in>set (keys R). skipType k \<longrightarrow> k \<in> set builtin_types) \<and>
      emit (filter (\<lambda>(k, t). \<not> skipType k) R) = emit R)"
proof (intro conjI impI)
  show "skipType n \<longleftrightarrow>
      n \<in> set builtin_types \<or> n \<in> set skip_types \<or> sublist ''Test'' n \<or>
      suffix ''NodeId'' n \<or> suffix ''NodeId\<newline>'' n"
    by (simp add: skipType_def re_search_NodeId_end_def)
next
  assume "get r ''Name'' = Some n \<and> skipType n"
  then show "process r (types, fin) = Inr (types, fin)"
    by (simp add: process_def)
next
  assume R: "parseTypeDefinitions recs = Some (Inr R)"
  show "prefix seed_types R" by (rule registry_keeps_seed [OF R])
  show ne: "\<forall>k\<in>set (keys R). skipType k \<longrightarrow> k \<in> set builtin_types"
    by (rule registry_no_excluded [OF R])
  show "emit (filter (\<lambda>(k, t). \<not> skipType k) R) = emit R"
    by (rule emit_filter) (use ne in blast)
qed

theorem skipType_exclusion_witness:
  "get (example_opaque ''MyTestType'') ''Name'' = Some ''MyTestType'' \<and>
   skipType ''MyTestType'' \<and>
   process (example_opaque ''MyTestType'') (seed_types, True) = Inr (seed_types, True) \<and>
   parseTypeDefinitions [example_opaque ''MyTestType'', example_opaque ''Color''] =
     Some (Inr (seed_types @ [(''Color'', OpaqueType ''Color'' (Some []))])) \<and>
   prefix seed_types (seed_types @ [(''Color'', OpaqueType ''Color'' (Some []))]) \<and>
   emit (filter (\<lambda>(k, t). \<not> skipType k)
           (seed_types @ [(''Color'', OpaqueType ''Color'' (Some []))])) =
     emit (seed_types @ [(''Color'', OpaqueType ''Color'' (Some []))])"
proof -
  let ?R = "seed_types @ [(''Color'', OpaqueType ''Color'' (Some []))]"
  let ?recs = "[example_opaque ''MyTestType'', example_opaque ''Color'']"
  have n: "get (example_opaque ''MyTestType'') ''Name'' = Some ''MyTestType''"
    by (simp add: example_opaque_def get_def)
  have s: "skipType ''MyTestType''"
    by (simp add: skipType_def builtin_types_def skip_types_def sublist_code)
  have p: "pass ?recs (seed_types, True) = Inr (?R, True)"
    by (simp add: eval_simps)
  have R: "parseTypeDefinitions ?recs = Some (Inr ?R)"
    unfolding parseTypeDefinitions_def
    by (subst resolve.simps) (simp add: p del: pass.simps)
  from skipType_exclusion [of "''MyTestType''" "example_opaque ''MyTestType''" seed_types True
      ?recs ?R] n s R
  show ?thesis by blast
qed

subsection \<open>A reference to a type that is nowhere in the input\<close>

lemma struct_members_missing:
  assumes "f \<in> set cs" "tag f = Field_tag" "get f ''Name'' \<notin> Some ` set lfs"
    "get f ''TypeName'' = Some tn" "stripTypename tn \<notin> set (keys types)"
  shows "struct_members types lfs cs ms \<noteq> Inr (Some ms')"
  using assms(1)
proof (induction cs arbitrary: ms)
  case Nil
  then show ?case by simp
next
  case (Cons c cs)
  show ?case
  proof (cases "c = f")
    case True
    from assms(5) have "map_of types (stripTypename tn) = None" by (simp add: map_of_keys)
    with True assms(2-4) show ?thesis by simp
  next
    case False
    with Cons.prems have "f \<in> set cs" by simp
    from Cons.IH [OF this] show ?thesis
      by (auto split: option.splits)
  qed
qed

lemma parseStructured_missing:
  assumes "f \<in> set (children r)" "tag f = Field_tag"
    "get f ''Name'' \<notin> Some ` set (lengthfields (children r))"
    "get f ''TypeName'' = Some tn" "stripTypename tn \<notin> set (keys types)"
  shows "parseStructured types n r \<noteq> Inr (Some t)"
  using struct_members_missing [OF assms]
  by (auto simp: parseStructured_def split: sum.splits option.splits)

lemma process_deferred:
  assumes "tag r = StructuredType_tag" "get r ''Name'' = Some n" "\<not> skipType n"
    "n \<notin> set (keys types)" "\<And>t. parseStructured types n r \<noteq> Inr (Some t)"
    "process r (types, fin) = Inr (types', fin')"
  shows "types' = types \<and> \<not> fin'"
  using assms
  by (auto simp: process_def tags_distinct split: sum.splits option.splits)

lemma process_flag:
  assumes "process r (types, fin) = Inr (types', fin')" shows "fin' \<longrightarrow> fin"
  using assms by (cases rule: process_cases) simp_all

lemma pass_flag:
  "pass xs (types, fin) = Inr (types', fin') \<Longrightarrow> fin' \<longrightarrow> fin"
proof (induction xs arbitrary: types fin)
  case Nil
  then show ?case by simp
next
  case (Cons x xs)
  from Cons.prems obtain t1 f1 where p: "process x (types, fin) = Inr (t1, f1)"
    and q: "pass xs (t1, f1) = Inr (types', fin')"
    by (auto split: sum.splits)
  from Cons.IH [OF q] process_flag [OF p] show ?case by simp
qed

lemma pass_deferred:
  assumes step: "\<And>x types fin types' fin'.
      x \<in> set recs \<Longrightarrow> I types \<Longrightarrow> process x (types, fin) = Inr (types', fin') \<Longrightarrow>
      I types' \<and> (x = r \<longrightarrow> \<not> fin')"
    and "set xs \<subseteq> set recs" and "I types" and "pass xs (types, fin) = Inr (types', fin')"
    and "r \<in> set xs"
  shows "\<not> fin'"
  using assms(2-)
proof (induction xs arbitrary: types fin)
  case Nil
  then show ?case by simp
next
  case (Cons x xs)
  from Cons.prems(3) obtain t1 f1 where p: "process x (types, fin) = Inr (t1, f1)"
    and q: "pass xs (t1, f1) = Inr (types', fin')"
    by (auto split: sum.splits)
  from step [OF _ Cons.prems(2) p] Cons.prems(1) have t1: "I t1" "x = r \<longrightarrow> \<not> f1" by simp_all
  show ?case
  proof (cases "x = r")
    case True
    with t1 pass_flag [OF q] show ?thesis by simp
  next
    case False
    with Cons.prems(4) have "r \<in> set xs" by simp
    from Cons.IH [OF _ t1(1) q this] Cons.prems(1) show ?thesis by simp
  qed
qed

lemma resolve_stuck:
  assumes step: "\<And>types types' fin.
      I types \<Longrightarrow> pass recs (types, True) = Inr (types', fin) \<Longrightarrow> I types' \<and> \<not> fin"
    and res: "resolve recs types = Some y" and init: "I types"
  shows "\<exists>e ts. y = Inl e \<and> I ts \<and> pass recs (ts, True) = Inl e"
proof -
  have "rs = recs \<longrightarrow> I ts \<longrightarrow> (\<exists>e ts. y = Inl e \<and> I ts \<and> pass recs (ts, True) = Inl e)"
    if "resolve rs ts = Some y" for rs ts y
  proof (rule resolve.raw_induct
      [where P = "\<lambda>rs ts y. rs = recs \<longrightarrow> I ts \<longrightarrow>
                    (\<exists>e ts. y = Inl e \<and> I ts \<and> pass recs (ts, True) = Inl e)", OF _ that])
    fix f rs ts y
    assume IH: "\<And>a b y. f a b = Some y \<Longrightarrow> a = recs \<longrightarrow> I b \<longrightarrow>
                  (\<exists>e ts. y = Inl e \<and> I ts \<and> pass recs (ts, True) = Inl e)"
      and eq: "(case pass rs (ts, True) of Inl e \<Rightarrow> Some (Inl e)
                | Inr (types', finished) \<Rightarrow>
                    if finished then Some (Inr types') else f rs types') = Some y"
    show "rs = recs \<longrightarrow> I ts \<longrightarrow> (\<exists>e ts. y = Inl e \<and> I ts \<and> pass recs (ts, True) = Inl e)"
    proof (intro impI)
      assume rs: "rs = recs" and ts: "I ts"
      show "\<exists>e ts. y = Inl e \<and> I ts \<and> pass recs (ts, True) = Inl e"
      proof (cases "pass rs (ts, True)")
        case (Inl e)
        with eq rs ts show ?thesis by auto
      next
        case (Inr st)
        obtain t1 f1 where st: "st = (t1, f1)" by (cases st)
        from step [OF ts] Inr st rs have t1: "I t1" "\<not> f1" by simp_all
        with eq Inr st have "f rs t1 = Some y" by simp
        from IH [OF this] rs t1 show ?thesis by simp
      qed
    qed
  qed
  with res init show ?thesis by blast
qed

lemma enum_elements_no_error:
  "list_all (\<lambda>c. tag c = EnumeratedValue_tag \<longrightarrow> get c ''Name'' \<noteq> None) cs \<Longrightarrow>
   enum_elements n cs els \<noteq> Inl e"
  by (induction cs arbitrary: els) auto

lemma struct_members_no_error:
  "list_all (\<lambda>c. tag c = Field_tag \<longrightarrow> get c ''TypeName'' \<noteq> None) cs \<Longrightarrow>
   struct_members types lfs cs ms \<noteq> Inl e"
  by (induction cs arbitrary: ms) (auto split: option.splits)

lemma process_no_error:
  assumes "get x ''Name'' \<noteq> None"
    and "list_all (\<lambda>c. (tag c = EnumeratedValue_tag \<longrightarrow> get c ''Name'' \<noteq> None) \<and>
                        (tag c = Field_tag \<longrightarrow> get c ''TypeName'' \<noteq> None)) (children x)"
  shows "process x st \<noteq> Inl e"
proof -
  from assms(2) have a: "list_all (\<lambda>c. tag c = EnumeratedValue_tag \<longrightarrow> get c ''Name'' \<noteq> None) (children x)"
    and b: "list_all (\<lambda>c. tag c = Field_tag \<longrightarrow> get c ''TypeName'' \<noteq> None) (children x)"
    by (simp_all add: list_all_iff)
  obtain types fin where st: "st = (types, fin)" by (cases st)
  from assms(1) obtain n where n: "get x ''Name'' = Some n" by auto
  have "parseEnumeration n x \<noteq> Inl e"
    using enum_elements_no_error [OF a] by (auto simp: parseEnumeration_def split: sum.splits)
  moreover have "parseStructured types n x \<noteq> Inl e"
    using struct_members_no_error [OF b]
    by (auto simp: parseStructured_def split: sum.splits option.splits)
  ultimately show ?thesis
    by (auto simp: process_def st n Let_def split: sum.splits option.splits)
qed

lemma pass_no_error: "attributes_present xs \<Longrightarrow> pass xs st \<noteq> Inl e"
proof (induction xs arbitrary: st)
  case Nil
  then show ?case by simp
next
  case (Cons x xs)
  then have "process x st \<noteq> Inl e" "attributes_present xs"
    using process_no_error [of x st e] by (simp_all add: attributes_present_def)
  with Cons.IH show ?case by (auto split: sum.splits)
qed

lemma unresolvable_core:
  assumes r: "r \<in> set recs" "tag r = StructuredType_tag" "get r ''Name'' = Some n"
      "\<not> skipType n"
    and f: "f \<in> set (children r)" "tag f = Field_tag"
      "get f ''Name'' \<notin> Some ` set (lengthfields (children r))"
      "get f ''TypeName'' = Some tn"
    and absent: "stripTypename tn \<notin> set builtin_types"
      "\<forall>x\<in>set recs. \<forall>k. get x ''Name'' = Some k \<longrightarrow>
          stripTypename tn \<noteq> k \<and> stripTypename tn \<noteq> protected_identifier k"
    and unique: "\<forall>x\<in>set recs. x \<noteq> r \<longrightarrow>
          (\<forall>k. get x ''Name'' = Some k \<longrightarrow> n \<noteq> k \<and> n \<noteq> protected_identifier k)"
    and res: "parseTypeDefinitions recs = Some y"
  shows "\<exists>e ts. y = Inl e \<and> pass recs (ts, True) = Inl e"
proof -
  define K where "K = set builtin_types \<union>
    {k. \<exists>x\<in>set recs. x \<noteq> r \<and> (\<exists>k'. get x ''Name'' = Some k' \<and>
          (k = k' \<or> k = protected_identifier k'))}"
  define I where "I = (\<lambda>ts :: registry. set (keys ts) \<subseteq> K)"
  have nK: "n \<notin> K"
    using r(4) unique by (auto simp: K_def skipType_def)
  have mK: "stripTypename tn \<notin> K"
    using absent by (auto simp: K_def)
  have step: "I types' \<and> (x = r \<longrightarrow> \<not> fin')"
    if x: "x \<in> set recs" and ts: "I types" and p: "process x (types, fin) = Inr (types', fin')"
    for x types fin types' fin'
  proof (cases "x = r")
    case True
    from ts nK mK have k: "n \<notin> set (keys types)" "stripTypename tn \<notin> set (keys types)"
      by (auto simp: I_def)
    have "parseStructured types n r \<noteq> Inr (Some t)" for t
      by (rule parseStructured_missing [OF f k(2)])
    from process_deferred [OF r(2,3,4) k(1) this] p True ts show ?thesis by auto
  next
    case False
    from p have "I types'"
    proof (cases rule: process_cases)
      case unchanged
      with ts show ?thesis by simp
    next
      case (inserted k t)
      with x False have "name t \<in> K" by (auto simp: K_def)
      with inserted(5) ts show ?thesis by (auto simp: I_def set_keys_setitem)
    qed
    with False show ?thesis by simp
  qed
  have pstep: "I types' \<and> \<not> fin"
    if ts: "I types" and p: "pass recs (types, True) = Inr (types', fin)" for types types' fin
  proof
    show "I types'"
      using pass_invariant [where I = I and recs = recs and xs = recs, OF _ _ ts p] step
      by blast
    show "\<not> fin"
      by (rule pass_deferred [where I = I and recs = recs and xs = recs and r = r,
            OF step _ ts p r(1)]) simp_all
  qed
  have "\<exists>e ts. y = Inl e \<and> I ts \<and> pass recs (ts, True) = Inl e"
  proof (rule resolve_stuck [where I = I and recs = recs and types = seed_types])
    show "resolve recs seed_types = Some y"
      using res by (simp add: parseTypeDefinitions_def)
    show "I seed_types" by (auto simp: I_def K_def keys_seed_types)
  next
    fix types types' fin
    assume "I types" and "pass recs (types, True) = Inr (types', fin)"
    then show "I types' \<and> \<not> fin" by (rule pstep)
  qed
  then show ?thesis by blast
qed

text \<open>
  C2, as the claim states it, fails: on the single record Structured B with a field of
  type A, where A is nowhere in the input, the loop never returns; no error is signalled.
\<close>

theorem unresolvable_reference_counterexample:
  "parseTypeDefinitions [example_struct ''B'' [example_field ''a'' ''A'']] = None"
proof (rule ccontr)
  let ?f = "example_field ''a'' ''A''"
  let ?r = "example_struct ''B'' [?f]"
  assume "parseTypeDefinitions [?r] \<noteq> None"
  then obtain y where y: "parseTypeDefinitions [?r] = Some y" by auto
  have "\<exists>e ts. y = Inl e \<and> pass [?r] (ts, True) = Inl e"
  proof (rule unresolvable_core [where r = ?r and f = ?f and n = "''B''" and tn = "''A''", OF _ _ _ not_skip_B _ _ _ _ _ _ _ y])
    show "?r \<in> set [?r]" by simp
    show "tag ?r = StructuredType_tag" by (simp add: example_struct_def)
    show "get ?r ''Name'' = Some ''B''" by (simp add: example_struct_def get_def)
    show "?f \<in> set (children ?r)" by (simp add: example_struct_def)
    show "tag ?f = Field_tag" by (simp add: example_field_def)
    show "get ?f ''Name'' \<notin> Some ` set (lengthfields (children ?r))"
      by (simp add: example_struct_def example_field_def lengthfields_def get_def)
    show "get ?f ''TypeName'' = Some ''A''" by (simp add: example_field_def get_def)
    show "stripTypename ''A'' \<notin> set builtin_types"
      by (simp add: stripTypename_def builtin_types_def)
    show "\<forall>x\<in>set [?r]. \<forall>k. get x ''Name'' = Some k \<longrightarrow>
            stripTypename ''A'' \<noteq> k \<and> stripTypename ''A'' \<noteq> protected_identifier k"
      by (simp add: example_struct_def get_def stripTypename_def A_not_keyword)
    show "\<forall>x\<in>set [?r]. x \<noteq> ?r \<longrightarrow>
            (\<forall>k. get x ''Name'' = Some k \<longrightarrow> ''B'' \<noteq> k \<and> ''B'' \<noteq> protected_identifier k)"
      by simp
  qed
  moreover have "attributes_present [?r]"
    by (simp add: attributes_present_def example_struct_def example_field_def get_def)
  ultimately show False using pass_no_error by blast
qed

text \<open>
  C2, amended. Let the input contain a Structured record that is not excluded, whose
  name is the name or the sanitized name of no other record, and that has a field, not
  a length-field holder, whose stripped type name is no builtin and is the name or the
  sanitized name of no record. Then the resolver never returns a registry, and when no
  attribute that the parsers read is missing it never returns at all: it runs forever
  and signals no error.
\<close>

theorem unresolvable_reference_never_returns:
  assumes "r \<in> set recs" "tag r = StructuredType_tag" "get r ''Name'' = Some n"
      "\<not> skipType n"
    and "f \<in> set (children r)" "tag f = Field_tag"
      "get f ''Name'' \<notin> Some ` set (lengthfields (children r))"
      "get f ''TypeName'' = Some tn"
    and "stripTypename tn \<notin> set builtin_types"
      "\<forall>x\<in>set recs. \<forall>k. get x ''Name'' = Some k \<longrightarrow>
          stripTypename tn \<noteq> k \<and> stripTypename tn \<noteq> protected_identifier k"
    and "\<forall>x\<in>set recs. x \<noteq> r \<longrightarrow>
          (\<forall>k. get x ''Name'' = Some k \<longrightarrow> n \<noteq> k \<and> n \<noteq> protected_identifier k)"
  shows "(\<forall>R. parseTypeDefinitions recs \<noteq> Some (Inr R)) \<and>
         (attributes_present recs \<longrightarrow> parseTypeDefinitions recs = None)"
proof (intro conjI allI impI)
  fix R
  show "parseTypeDefinitions recs \<noteq> Some (Inr R)"
    using unresolvable_core [OF assms, of "Inr R"] by auto
next
  assume a: "attributes_present recs"
  show "parseTypeDefinitions recs = None"
  proof (rule ccontr)
    assume "parseTypeDefinitions recs \<noteq> None"
    then obtain y where "parseTypeDefinitions recs = Some y" by auto
    from unresolvable_core [OF assms this] pass_no_error [OF a] show False by blast
  qed
qed

theorem unresolvable_reference_never_returns_witness:
  "attributes_present
     [example_opaque ''Color'', example_struct ''B'' [example_field ''a'' ''tns:Missing'']] \<and>
   parseTypeDefinitions
     [example_opaque ''Color'', example_struct ''B'' [example_field ''a'' ''tns:Missing'']] = None"
proof -
  let ?f = "example_field ''a'' ''tns:Missing''"
  let ?r = "example_struct ''B'' [?f]"
  let ?recs = "[example_opaque ''Color'', ?r]"
  have a: "attributes_present ?recs"
    by (simp add: attributes_present_def example_struct_def example_field_def
        example_opaque_def get_def)
  have s: "stripTypename ''tns:Missing'' = ''Missing''" by (simp add: stripTypename_def)
  have "(\<forall>R. parseTypeDefinitions ?recs \<noteq> Some (Inr R)) \<and>
        (attributes_present ?recs \<longrightarrow> parseTypeDefinitions ?recs = None)"
  proof (rule unresolvable_reference_never_returns
      [where r = ?r and f = ?f and n = "''B''" and tn = "''tns:Missing''"])
    show "?r \<in> set ?recs" by simp
    show "tag ?r = StructuredType_tag" by (simp add: example_struct_def)
    show "get ?r ''Name'' = Some ''B''" by (simp add: example_struct_def get_def)
    show "\<not> skipType ''B''" by (rule not_skip_B)
    show "?f \<in> set (children ?r)" by (simp add: example_struct_def)
    show "tag ?f = Field_tag" by (simp add: example_field_def)
    show "get ?f ''Name'' \<notin> Some ` set (lengthfields (children ?r))"
      by (simp add: example_struct_def example_field_def lengthfields_def get_def)
    show "get ?f ''TypeName'' = Some ''tns:Missing''" by (simp add: example_field_def get_def)
    show "stripTypename ''tns:Missing'' \<notin> set builtin_types"
      by (simp add: s builtin_types_def)
    show "\<forall>x\<in>set ?recs. \<forall>k. get x ''Name'' = Some k \<longrightarrow>
            stripTypename ''tns:Missing'' \<noteq> k \<and>
            stripTypename ''tns:Missing'' \<noteq> protected_identifier k"
      by (simp add: s example_struct_def example_opaque_def get_def protected_identifier_def
          idl_keywords_def)
    show "\<forall>x\<in>set ?recs. x \<noteq> ?r \<longrightarrow>
            (\<forall>k. get x ''Name'' = Some k \<longrightarrow> ''B'' \<noteq> k \<and> ''B'' \<noteq> protected_identifier k)"
      by (simp add: example_struct_def example_opaque_def get_def protected_identifier_def
          idl_keywords_def)
  qed
  with a show ?thesis by blast
qed

subsection \<open>Enumerations\<close>

lemma enum_elements_distinct:
  assumes "map (\<lambda>c. get c ''Name'') (filter (\<lambda>c. tag c = EnumeratedValue_tag) cs) = map Some names"
    and "distinct names" and "\<forall>e\<in>set names. n @ ''_'' @ e \<notin> set (keys els)"
  shows "\<exists>els'. enum_elements n cs els = Inr els' \<and>
           keys els' = keys els @ map (\<lambda>e. n @ ''_'' @ e) names"
  using assms
proof (induction cs arbitrary: els names)
  case Nil
  then show ?case by simp
next
  case (Cons c cs)
  show ?case
  proof (cases "tag c = EnumeratedValue_tag")
    case False
    with Cons.prems Cons.IH [of names els] show ?thesis by simp
  next
    case True
    with Cons.prems(1) obtain e rest where names: "names = e # rest"
      and e: "get c ''Name'' = Some e"
      and rest: "map (\<lambda>c. get c ''Name'') (filter (\<lambda>c. tag c = EnumeratedValue_tag) cs) = map Some rest"
      by (cases names) auto
    let ?els = "setitem (n @ ''_'' @ e) (get c ''Value'') els"
    from Cons.prems(3) names have new: "n @ ''_'' @ e \<notin> set (keys els)" by simp
    then have k: "keys ?els = keys els @ [n @ ''_'' @ e]" by (simp add: keys_setitem)
    from Cons.prems(2,3) names have "distinct rest"
      "\<forall>x\<in>set rest. n @ ''_'' @ x \<notin> set (keys ?els)"
      by (auto simp: set_keys_setitem)
    from Cons.IH [OF rest this] obtain els' where
      "enum_elements n cs ?els = Inr els'" "keys els' = keys ?els @ map (\<lambda>e. n @ ''_'' @ e) rest"
      by blast
    with True e names k show ?thesis by simp
  qed
qed

lemma enum_lines_concat:
  "enum_lines ks tdef =
     tdef @ concat (map (\<lambda>el. [CHR 0x09, CHR 0x09] @ protected_identifier el @ '', '' @ [CHR 0x0A]) ks)"
  unfolding enum_lines_def by (induction ks arbitrary: tdef) simp_all

lemma join_labels_take:
  "ls \<noteq> [] \<Longrightarrow>
   take (length (h @ concat (map (\<lambda>l. [CHR 0x09, CHR 0x09] @ l @ '', '' @ [CHR 0x0A]) ls)) - 3)
        (h @ concat (map (\<lambda>l. [CHR 0x09, CHR 0x09] @ l @ '', '' @ [CHR 0x0A]) ls)) =
   h @ join_labels ls"
proof (induction ls arbitrary: h rule: join_labels.induct)
  case 1
  then show ?case by simp
next
  case (2 l)
  show ?case by simp
next
  case (3 l v va)
  have "take (length ((h @ [CHR 0x09, CHR 0x09] @ l @ '', '' @ [CHR 0x0A]) @
                 concat (map (\<lambda>l. [CHR 0x09, CHR 0x09] @ l @ '', '' @ [CHR 0x0A]) (v # va))) - 3)
          ((h @ [CHR 0x09, CHR 0x09] @ l @ '', '' @ [CHR 0x0A]) @
                 concat (map (\<lambda>l. [CHR 0x09, CHR 0x09] @ l @ '', '' @ [CHR 0x0A]) (v # va))) =
        (h @ [CHR 0x09, CHR 0x09] @ l @ '', '' @ [CHR 0x0A]) @ join_labels (v # va)"
    by (rule "3.IH") simp
  then show ?case by simp
qed

lemma typedef_idl_enum:
  assumes "keys els \<noteq> []"
  shows "typedef_idl (EnumerationType n d els) =
     Inr (Some (enum_declaration_spec n (map protected_identifier (keys els))))"
proof -
  from assms have ne: "map protected_identifier (keys els) \<noteq> []" by simp
  have "enum_lines (keys els) ([CHR 0x09] @ ''enum '' @ n @ '' {'' @ [CHR 0x0A]) =
        ([CHR 0x09] @ ''enum '' @ n @ '' {'' @ [CHR 0x0A]) @
        concat (map (\<lambda>l. [CHR 0x09, CHR 0x09] @ l @ '', '' @ [CHR 0x0A])
                  (map protected_identifier (keys els)))"
    by (simp add: enum_lines_concat comp_def)
  with join_labels_take [OF ne, of "[CHR 0x09] @ ''enum '' @ n @ '' {'' @ [CHR 0x0A]"] assms
  show ?thesis
    by (simp add: enum_declaration_spec_def Let_def)
qed

text \<open>
  An enumeration without elements: the slice \<^verbatim>\<open>tdef[:-3]\<close> of line 56, meant for the
  comma, blank and newline after the last label, removes the blank, the opening brace
  and the newline of the first line instead. The text emitted has a closing brace and no
  opening one, and is not the declaration of the specification.
\<close>

lemma typedef_idl_enum_empty:
  "typedef_idl (EnumerationType n d []) =
     Inr (Some ([CHR 0x09] @ ''enum '' @ n @ [CHR 0x0A, CHR 0x09] @ ''};''))"
  "typedef_idl (EnumerationType n d []) \<noteq> Inr (Some (enum_declaration_spec n []))"
  by (simp_all add: enum_lines_def keys_def enum_declaration_spec_def)

text \<open>
  C7, as the claim states it, fails: an enumeration record that declares two elements
  with the same name gets one case label.
\<close>

theorem enumeration_duplicate_counterexample:
  "parseEnumeration ''Color''
     (example_enum ''Color'' [example_value ''Red'' ''0'', example_value ''Red'' ''1'']) =
     Inr (EnumerationType ''Color'' (Some []) [(''Color_Red'', Some ''1'')]) \<and>
   typedef_idl (EnumerationType ''Color'' (Some []) [(''Color_Red'', Some ''1'')]) =
     Inr (Some ([CHR 0x09] @ ''enum Color {'' @ [CHR 0x0A] @
                [CHR 0x09, CHR 0x09] @ ''Color_Red'' @ [CHR 0x0A, CHR 0x09] @ ''};''))"
  by (simp add: eval_simps enum_lines_def)

text \<open>
  C7, amended. For every enumeration record that declares at least one element and
  whose declared elements have pairwise distinct names, parsing succeeds, the type keeps
  one element per declared element, in the declaration order and under the qualified
  name TypeName_ElementName, and the emitted declaration is the specification's
  enumerated-value declaration with exactly these labels, each sanitized on its own; it
  is a function of the names alone, so no value of the schema is in it. The record
  without elements is left out: see \<open>typedef_idl_enum_empty\<close>.
\<close>

theorem enumeration_declaration:
  assumes "map (\<lambda>c. get c ''Name'')
             (filter (\<lambda>c. tag c = EnumeratedValue_tag) (children typeXml)) = map Some names"
    and "distinct names" and "names \<noteq> []"
  shows "\<exists>T. parseEnumeration n typeXml = Inr T \<and>
           keys (elements T) = map (\<lambda>e. n @ ''_'' @ e) names \<and>
           length (elements T) = length names \<and>
           typedef_idl T =
             Inr (Some (enum_declaration_spec (protected_identifier n)
                          (map (\<lambda>e. protected_identifier (n @ ''_'' @ e)) names)))"
proof -
  from enum_elements_distinct [OF assms(1,2), of n "[]"] obtain els where
    els: "enum_elements n (children typeXml) [] = Inr els"
      "keys els = map (\<lambda>e. n @ ''_'' @ e) names"
    by (auto simp: keys_def)
  let ?T = "new_EnumerationType n (last_documentation (children typeXml)) els"
  have p: "parseEnumeration n typeXml = Inr ?T"
    by (simp add: parseEnumeration_def els)
  have k: "keys (elements ?T) = map (\<lambda>e. n @ ''_'' @ e) names"
    by (simp add: new_EnumerationType_def els)
  have l: "length (elements ?T) = length names"
    using arg_cong [OF k, of length] by (simp add: keys_def)
  have t: "typedef_idl ?T =
             Inr (Some (enum_declaration_spec (protected_identifier n)
                          (map (\<lambda>e. protected_identifier (n @ ''_'' @ e)) names)))"
  proof -
    from els(2) assms(3) have "keys els \<noteq> []" by simp
    from typedef_idl_enum [OF this, of "protected_identifier n"
        "last_documentation (children typeXml)"]
    show ?thesis unfolding new_EnumerationType_def els by (simp add: comp_def)
  qed
  from p k l t show ?thesis by blast
qed

theorem enumeration_declaration_witness:
  "parseEnumeration ''Color''
     (example_enum ''Color''
        [example_value ''Red'' ''0'', example_value ''Green'' ''1'', example_value ''Blue'' ''2'']) =
     Inr (EnumerationType ''Color'' (Some [])
            [(''Color_Red'', Some ''0''), (''Color_Green'', Some ''1''),
             (''Color_Blue'', Some ''2'')]) \<and>
   typedef_idl (EnumerationType ''Color'' (Some [])
            [(''Color_Red'', Some ''0''), (''Color_Green'', Some ''1''),
             (''Color_Blue'', Some ''2'')]) =
     Inr (Some ([CHR 0x09] @ ''enum Color {'' @ [CHR 0x0A] @
                [CHR 0x09, CHR 0x09] @ ''Color_Red, '' @ [CHR 0x0A] @
                [CHR 0x09, CHR 0x09] @ ''Color_Green, '' @ [CHR 0x0A] @
                [CHR 0x09, CHR 0x09] @ ''Color_Blue'' @ [CHR 0x0A, CHR 0x09] @ ''};''))"
proof -
  let ?x = "example_enum ''Color''
        [example_value ''Red'' ''0'', example_value ''Green'' ''1'', example_value ''Blue'' ''2'']"
  let ?T = "EnumerationType ''Color'' (Some [])
            [(''Color_Red'', Some ''0''), (''Color_Green'', Some ''1''),
             (''Color_Blue'', Some ''2'')]"
  have h1: "map (\<lambda>c. get c ''Name'') (filter (\<lambda>c. tag c = EnumeratedValue_tag) (children ?x)) =
            map Some [''Red'', ''Green'', ''Blue'']"
    by (simp add: example_enum_def example_value_def get_def)
  have h2: "distinct [''Red'', ''Green'', ''Blue'']" by simp
  have h3: "[''Red'', ''Green'', ''Blue''] \<noteq> []" by simp
  from enumeration_declaration [OF h1 h2 h3, of "''Color''"] obtain T where
    p: "parseEnumeration ''Color'' ?x = Inr T" and
    t: "typedef_idl T =
          Inr (Some (enum_declaration_spec (protected_identifier ''Color'')
                 (map (\<lambda>e. protected_identifier (''Color'' @ ''_'' @ e)) [''Red'', ''Green'', ''Blue''])))"
    by blast
  have e: "parseEnumeration ''Color'' ?x = Inr ?T"
    by (simp add: eval_simps)
  with p have T: "T = ?T" by simp
  have "enum_declaration_spec (protected_identifier ''Color'')
          (map (\<lambda>e. protected_identifier (''Color'' @ ''_'' @ e)) [''Red'', ''Green'', ''Blue'']) =
        [CHR 0x09] @ ''enum Color {'' @ [CHR 0x0A] @
                [CHR 0x09, CHR 0x09] @ ''Color_Red, '' @ [CHR 0x0A] @
                [CHR 0x09, CHR 0x09] @ ''Color_Green, '' @ [CHR 0x0A] @
                [CHR 0x09, CHR 0x09] @ ''Color_Blue'' @ [CHR 0x0A, CHR 0x09] @ ''};''"
    by (simp add: enum_declaration_spec_def protected_identifier_def idl_keywords_def)
  with t T e show ?thesis by simp
qed

subsection \<open>Structures\<close>

lemma struct_members_distinct:
  assumes "struct_members types lfs cs ms = Inr (Some ms')"
    and "distinct (map (\<lambda>c. get c ''Name'')
           (filter (\<lambda>c. tag c = Field_tag \<and> get c ''Name'' \<notin> Some ` set lfs) cs))"
    and "\<forall>c\<in>set cs. tag c = Field_tag \<and> get c ''Name'' \<notin> Some ` set lfs \<longrightarrow>
           get c ''Name'' \<notin> set (keys ms)"
  shows "\<exists>zs. ms' = ms @ zs \<and>
           list_all2 (\<lambda>c km. fst km = get c ''Name'' \<and>
               member_name (snd km) = map_option protected_identifier (get c ''Name'') \<and>
               (\<exists>tn. get c ''TypeName'' = Some tn \<and>
                     map_of types (stripTypename tn) = Some (memberType (snd km))) \<and>
               isArray (snd km) = truthy (get c ''LengthField''))
             (filter (\<lambda>c. tag c = Field_tag \<and> get c ''Name'' \<notin> Some ` set lfs) cs) zs"
  using assms
proof (induction cs arbitrary: ms)
  case Nil
  then show ?case by simp
next
  case (Cons c cs)
  show ?case
  proof (cases "tag c = Field_tag \<and> get c ''Name'' \<notin> Some ` set lfs")
    case False
    with Cons.prems(1) have "struct_members types lfs cs ms = Inr (Some ms')"
      by (cases "tag c = Field_tag") simp_all
    from Cons.IH [OF this] Cons.prems(2,3) False show ?thesis
      by (cases "tag c = Field_tag") simp_all
  next
    case True
    with Cons.prems(1) obtain tn mt where tn: "get c ''TypeName'' = Some tn"
      and mt: "map_of types (stripTypename tn) = Some mt"
      by (auto split: option.splits)
    let ?m = "new_StructMember (get c ''Name'') mt (truthy (get c ''LengthField''))"
    let ?ms = "setitem (get c ''Name'') ?m ms"
    from Cons.prems(3) True have "get c ''Name'' \<notin> set (keys ms)" by simp
    then have ms1: "?ms = ms @ [(get c ''Name'', ?m)]" by (rule setitem_new)
    from Cons.prems(1) True tn mt have r: "struct_members types lfs cs ?ms = Inr (Some ms')"
      by simp
    from Cons.prems(2) True have d: "distinct (map (\<lambda>c. get c ''Name'')
           (filter (\<lambda>c. tag c = Field_tag \<and> get c ''Name'' \<notin> Some ` set lfs) cs))"
      and n0: "get c ''Name'' \<notin> (\<lambda>c. get c ''Name'') `
                 {x \<in> set cs. tag x = Field_tag \<and> get x ''Name'' \<notin> Some ` set lfs}"
      by simp_all
    have n: "\<forall>x\<in>set cs. tag x = Field_tag \<and> get x ''Name'' \<notin> Some ` set lfs \<longrightarrow>
                 get x ''Name'' \<noteq> get c ''Name''"
    proof (intro ballI impI notI)
      fix x assume "x \<in> set cs" "tag x = Field_tag \<and> get x ''Name'' \<notin> Some ` set lfs"
        "get x ''Name'' = get c ''Name''"
      then have "get c ''Name'' \<in> (\<lambda>c. get c ''Name'') `
                 {x \<in> set cs. tag x = Field_tag \<and> get x ''Name'' \<notin> Some ` set lfs}"
        by (intro image_eqI [of _ _ x]) simp_all
      with n0 show False by contradiction
    qed
    from Cons.prems(3) n have k: "\<forall>x\<in>set cs. tag x = Field_tag \<and> get x ''Name'' \<notin> Some ` set lfs \<longrightarrow>
           get x ''Name'' \<notin> set (keys ?ms)"
      by (auto simp: set_keys_setitem)
    from Cons.IH [OF r d k] obtain zs where zs: "ms' = ?ms @ zs"
      "list_all2 (\<lambda>c km. fst km = get c ''Name'' \<and>
               member_name (snd km) = map_option protected_identifier (get c ''Name'') \<and>
               (\<exists>tn. get c ''TypeName'' = Some tn \<and>
                     map_of types (stripTypename tn) = Some (memberType (snd km))) \<and>
               isArray (snd km) = truthy (get c ''LengthField''))
             (filter (\<lambda>c. tag c = Field_tag \<and> get c ''Name'' \<notin> Some ` set lfs) cs) zs"
      by blast
    show ?thesis
    proof (intro exI [of _ "(get c ''Name'', ?m) # zs"] conjI)
      show "ms' = ms @ (get c ''Name'', ?m) # zs" using zs(1) ms1 by simp
      show "list_all2 (\<lambda>c km. fst km = get c ''Name'' \<and>
               member_name (snd km) = map_option protected_identifier (get c ''Name'') \<and>
               (\<exists>tn. get c ''TypeName'' = Some tn \<and>
                     map_of types (stripTypename tn) = Some (memberType (snd km))) \<and>
               isArray (snd km) = truthy (get c ''LengthField''))
             (filter (\<lambda>c. tag c = Field_tag \<and> get c ''Name'' \<notin> Some ` set lfs) (c # cs))
             ((get c ''Name'', ?m) # zs)"
        using True zs(2) tn mt by (simp add: new_StructMember_def)
    qed
  qed
qed

lemma struct_lines_concat:
  assumes "list_all2 (\<lambda>m l. \<exists>mn. member_name m = Some mn \<and>
              l = member_line (isArray m) (name (memberType m)) mn) ms ls"
  shows "struct_lines ms tdef = Inr (tdef @ concat ls)"
  using assms
proof (induction ms ls arbitrary: tdef rule: list_all2_induct)
  case Nil
  then show ?case by simp
next
  case (Cons m ms l ls)
  then obtain mn where "member_name m = Some mn"
    "l = member_line (isArray m) (name (memberType m)) mn" by blast
  with Cons.IH show ?case by (simp add: member_line_def)
qed

lemma lengthfields_mem:
  "s \<in> set cs \<Longrightarrow> truthy (get s ''LengthField'') \<Longrightarrow>
   get s ''LengthField'' \<in> Some ` set (lengthfields cs)"
  by (force simp: lengthfields_def truthy_def split: option.splits)

lemma list_all2_keys:
  "list_all2 (\<lambda>c km. fst km = f c \<and> Q c km) cs zs \<Longrightarrow> keys zs = map f cs"
  by (induction cs zs rule: list_all2_induct) (simp_all add: keys_def)

lemma members_render:
  assumes "list_all2 (\<lambda>c km. fst km = get c ''Name'' \<and>
               member_name (snd km) = map_option protected_identifier (get c ''Name'') \<and>
               (\<exists>tn. get c ''TypeName'' = Some tn \<and>
                     map_of types (stripTypename tn) = Some (memberType (snd km))) \<and>
               isArray (snd km) = truthy (get c ''LengthField'')) cs zs"
    and "list_all (\<lambda>c. get c ''Name'' \<noteq> None) cs"
  shows "\<exists>ls. list_all2 (\<lambda>c l. \<exists>mn tn mt. get c ''Name'' = Some mn \<and>
                   get c ''TypeName'' = Some tn \<and>
                   map_of types (stripTypename tn) = Some mt \<and>
                   l = member_line (truthy (get c ''LengthField'')) (name mt)
                         (protected_identifier mn)) cs ls \<and>
              list_all2 (\<lambda>m l. \<exists>mn. member_name m = Some mn \<and>
                   l = member_line (isArray m) (name (memberType m)) mn) (map snd zs) ls"
  using assms
proof (induction cs zs rule: list_all2_induct)
  case Nil
  then show ?case by simp
next
  case (Cons c cs km zs)
  from Cons.prems have "list_all (\<lambda>c. get c ''Name'' \<noteq> None) cs" by simp
  from Cons.IH [OF this] obtain ls where ls:
    "list_all2 (\<lambda>c l. \<exists>mn tn mt. get c ''Name'' = Some mn \<and>
                   get c ''TypeName'' = Some tn \<and>
                   map_of types (stripTypename tn) = Some mt \<and>
                   l = member_line (truthy (get c ''LengthField'')) (name mt)
                         (protected_identifier mn)) cs ls"
    "list_all2 (\<lambda>m l. \<exists>mn. member_name m = Some mn \<and>
                   l = member_line (isArray m) (name (memberType m)) mn) (map snd zs) ls"
    by blast
  from Cons.prems obtain mn where mn: "get c ''Name'' = Some mn" by auto
  from Cons.hyps(1) obtain tn where tn: "get c ''TypeName'' = Some tn"
    "map_of types (stripTypename tn) = Some (memberType (snd km))" by blast
  from Cons.hyps(1) mn have m: "member_name (snd km) = Some (protected_identifier mn)"
    "isArray (snd km) = truthy (get c ''LengthField'')" by simp_all
  let ?l = "member_line (truthy (get c ''LengthField'')) (name (memberType (snd km)))
              (protected_identifier mn)"
  have "list_all2 (\<lambda>c l. \<exists>mn tn mt. get c ''Name'' = Some mn \<and>
                   get c ''TypeName'' = Some tn \<and>
                   map_of types (stripTypename tn) = Some mt \<and>
                   l = member_line (truthy (get c ''LengthField'')) (name mt)
                         (protected_identifier mn)) (c # cs) (?l # ls)"
    using ls(1) mn tn by simp
  moreover have "list_all2 (\<lambda>m l. \<exists>mn. member_name m = Some mn \<and>
                   l = member_line (isArray m) (name (memberType m)) mn)
                   (map snd (km # zs)) (?l # ls)"
    using ls(2) m by simp
  ultimately show ?case by blast
qed

text \<open>
  C6, as the claim states it, fails: of two fields with the same name the member list
  keeps one entry, with the type and the array flag of the later field, so the first
  field, which declares a LengthField and is not elided, is not rendered as an array.
\<close>

theorem struct_duplicate_counterexample:
  "parseStructured seed_types ''S''
     (example_struct ''S''
        [example_array_field ''x'' ''opc:Int32'' ''NoOfx'', example_field ''x'' ''opc:Boolean'']) =
     Inr (Some (StructType ''S'' (Some [])
       [(Some ''x'', StructMember (Some ''x'') (BuiltinType ''Boolean'' (Some [])) False)])) \<and>
   typedef_idl (StructType ''S'' (Some [])
       [(Some ''x'', StructMember (Some ''x'') (BuiltinType ''Boolean'' (Some [])) False)]) =
     Inr (Some ([CHR 0x09] @ '' struct S {'' @ [CHR 0x0A] @
                [CHR 0x09, CHR 0x09] @ ''Boolean x;'' @ [CHR 0x0A] @ [CHR 0x09] @ ''};''))"
  by (simp add: eval_simps)

text \<open>
  C6, amended. For every Structured record that parses to a StructType and whose
  remaining fields have pairwise distinct names: a field whose name is the non-empty
  LengthField of some child is no member; the members are the remaining fields in order,
  each with the sanitized field name, the registry entry of the stripped type name and
  the array flag set exactly when the field has a non-empty LengthField; and when every
  remaining field has a name, the emitted record declaration has exactly one line per
  remaining field, \<open>ListOf<MemberType> <MemberName>\<close> for an array and
  \<open><MemberType> <MemberName>\<close> otherwise.
\<close>

theorem struct_declaration:
  assumes "parseStructured types n typeXml = Inr (Some T)"
    and "distinct (map (\<lambda>c. get c ''Name'') (kept_fields (children typeXml)))"
  shows "(\<forall>c\<in>set (children typeXml). tag c = Field_tag \<longrightarrow>
            (\<exists>s\<in>set (children typeXml). truthy (get s ''LengthField'') \<and>
                 get s ''LengthField'' = get c ''Name'') \<longrightarrow>
            get c ''Name'' \<notin> set (keys (members T))) \<and>
         list_all2 (\<lambda>c km. fst km = get c ''Name'' \<and>
               member_name (snd km) = map_option protected_identifier (get c ''Name'') \<and>
               (\<exists>tn. get c ''TypeName'' = Some tn \<and>
                     map_of types (stripTypename tn) = Some (memberType (snd km))) \<and>
               isArray (snd km) = truthy (get c ''LengthField''))
           (kept_fields (children typeXml)) (members T) \<and>
         (list_all (\<lambda>c. get c ''Name'' \<noteq> None) (kept_fields (children typeXml)) \<longrightarrow>
            (\<exists>ls. list_all2 (\<lambda>c l. \<exists>mn tn mt. get c ''Name'' = Some mn \<and>
                       get c ''TypeName'' = Some tn \<and>
                       map_of types (stripTypename tn) = Some mt \<and>
                       l = member_line (truthy (get c ''LengthField'')) (name mt)
                             (protected_identifier mn))
                     (kept_fields (children typeXml)) ls \<and>
                  typedef_idl T =
                    Inr (Some ([CHR 0x09] @ '' struct '' @ protected_identifier n @ '' {'' @
                               [CHR 0x0A] @ concat ls @ [CHR 0x09] @ ''};''))))"
proof -
  let ?cs = "children typeXml"
  let ?lfs = "lengthfields ?cs"
  from assms(1) obtain ms where ms:
    "struct_members types ?lfs ?cs [] = Inr (Some ms)"
    and T: "T = new_StructType n (last_documentation ?cs) ms"
    by (auto simp: parseStructured_def split: sum.splits option.splits)
  have mT: "members T = ms" and nT: "name T = protected_identifier n"
    by (simp_all add: T new_StructType_def)
  from struct_members_distinct [OF ms assms(2) [unfolded kept_fields_def]]
  have R: "list_all2 (\<lambda>c km. fst km = get c ''Name'' \<and>
               member_name (snd km) = map_option protected_identifier (get c ''Name'') \<and>
               (\<exists>tn. get c ''TypeName'' = Some tn \<and>
                     map_of types (stripTypename tn) = Some (memberType (snd km))) \<and>
               isArray (snd km) = truthy (get c ''LengthField''))
           (kept_fields ?cs) ms"
    by (simp add: keys_def kept_fields_def)
  have k: "keys ms = map (\<lambda>c. get c ''Name'') (kept_fields ?cs)"
    by (rule list_all2_keys [OF R])
  have elided: "get c ''Name'' \<notin> set (keys (members T))"
    if c: "c \<in> set ?cs" and s: "\<exists>s\<in>set ?cs. truthy (get s ''LengthField'') \<and>
                 get s ''LengthField'' = get c ''Name''" for c
  proof -
    from s lengthfields_mem have "get c ''Name'' \<in> Some ` set ?lfs" by metis
    then show ?thesis by (auto simp: mT k kept_fields_def)
  qed
  have render: "\<exists>ls. list_all2 (\<lambda>c l. \<exists>mn tn mt. get c ''Name'' = Some mn \<and>
                       get c ''TypeName'' = Some tn \<and>
                       map_of types (stripTypename tn) = Some mt \<and>
                       l = member_line (truthy (get c ''LengthField'')) (name mt)
                             (protected_identifier mn))
                     (kept_fields ?cs) ls \<and>
                  typedef_idl T =
                    Inr (Some ([CHR 0x09] @ '' struct '' @ protected_identifier n @ '' {'' @
                               [CHR 0x0A] @ concat ls @ [CHR 0x09] @ ''};''))"
    if named: "list_all (\<lambda>c. get c ''Name'' \<noteq> None) (kept_fields ?cs)"
  proof -
    from members_render [OF R named] obtain ls where ls:
      "list_all2 (\<lambda>c l. \<exists>mn tn mt. get c ''Name'' = Some mn \<and>
                   get c ''TypeName'' = Some tn \<and>
                   map_of types (stripTypename tn) = Some mt \<and>
                   l = member_line (truthy (get c ''LengthField'')) (name mt)
                         (protected_identifier mn)) (kept_fields ?cs) ls"
      "list_all2 (\<lambda>m l. \<exists>mn. member_name m = Some mn \<and>
                   l = member_line (isArray m) (name (memberType m)) mn) (map snd ms) ls"
      by blast
    have "typedef_idl T =
            Inr (Some ([CHR 0x09] @ '' struct '' @ protected_identifier n @ '' {'' @
                       [CHR 0x0A] @ concat ls @ [CHR 0x09] @ ''};''))"
      by (simp add: T new_StructType_def struct_lines_concat [OF ls(2)])
    with ls(1) show ?thesis by blast
  qed
  from elided R render show ?thesis unfolding mT by blast
qed

theorem struct_declaration_witness:
  "parseStructured seed_types ''S''
     (example_struct ''S''
        [example_field ''NoOfValues'' ''opc:Int32'',
         example_array_field ''Values'' ''opc:String'' ''NoOfValues'']) =
     Inr (Some (StructType ''S'' (Some [])
       [(Some ''Values'', StructMember (Some ''Values'') (BuiltinType ''String'' (Some [])) True)])) \<and>
   distinct (map (\<lambda>c. get c ''Name'')
     (kept_fields [example_field ''NoOfValues'' ''opc:Int32'',
                   example_array_field ''Values'' ''opc:String'' ''NoOfValues''])) \<and>
   Some ''NoOfValues'' \<notin> set (keys
       [(Some ''Values'', StructMember (Some ''Values'') (BuiltinType ''String'' (Some [])) True)]) \<and>
   typedef_idl (StructType ''S'' (Some [])
       [(Some ''Values'', StructMember (Some ''Values'') (BuiltinType ''String'' (Some [])) True)]) =
     Inr (Some ([CHR 0x09] @ '' struct S {'' @ [CHR 0x0A] @
                [CHR 0x09, CHR 0x09] @ ''ListOfString Values;'' @ [CHR 0x0A] @
                [CHR 0x09] @ ''};''))"
proof -
  let ?n = "example_field ''NoOfValues'' ''opc:Int32''"
  let ?v = "example_array_field ''Values'' ''opc:String'' ''NoOfValues''"
  let ?x = "example_struct ''S'' [?n, ?v]"
  let ?T = "StructType ''S'' (Some [])
       [(Some ''Values'', StructMember (Some ''Values'') (BuiltinType ''String'' (Some [])) True)]"
  have ch: "children ?x = [?n, ?v]" by (simp add: example_struct_def)
  have h1: "parseStructured seed_types ''S'' ?x = Inr (Some ?T)"
    by (simp add: eval_simps)
  have kf: "kept_fields [?n, ?v] = [?v]"
    by (simp add: kept_fields_def lengthfields_def example_field_def example_array_field_def
        get_def)
  have h2: "distinct (map (\<lambda>c. get c ''Name'') (kept_fields (children ?x)))"
    by (simp add: ch kf)
  note d = struct_declaration [OF h1 h2, unfolded ch kf]
  have mem: "?n \<in> set [?n, ?v]" by simp
  have tagn: "tag ?n = Field_tag" by (simp add: example_field_def)
  have ex: "\<exists>s\<in>set [?n, ?v]. truthy (get s ''LengthField'') \<and>
                 get s ''LengthField'' = get ?n ''Name''"
    by (rule bexI [of _ ?v])
       (simp_all add: example_field_def example_array_field_def get_def truthy_def)
  from d [THEN conjunct1, THEN bspec, OF mem] tagn ex
  have "get ?n ''Name'' \<notin> set (keys (members ?T))" by blast
  then have e: "Some ''NoOfValues'' \<notin> set (keys
       [(Some ''Values'', StructMember (Some ''Values'') (BuiltinType ''String'' (Some [])) True)])"
    by (simp add: example_field_def get_def)
  have named: "list_all (\<lambda>c. get c ''Name'' \<noteq> None) [?v]"
    by (simp add: example_array_field_def get_def)
  with d obtain ls where ls:
    "list_all2 (\<lambda>c l. \<exists>mn tn mt. get c ''Name'' = Some mn \<and>
                       get c ''TypeName'' = Some tn \<and>
                       map_of seed_types (stripTypename tn) = Some mt \<and>
                       l = member_line (truthy (get c ''LengthField'')) (name mt)
                             (protected_identifier mn)) [?v] ls"
    "typedef_idl ?T =
       Inr (Some ([CHR 0x09] @ '' struct '' @ protected_identifier ''S'' @ '' {'' @
                  [CHR 0x0A] @ concat ls @ [CHR 0x09] @ ''};''))"
    by blast
  have m: "map_of seed_types ''String'' = Some (BuiltinType ''String'' (Some []))"
    by (simp add: seed_types_eq builtin_types_def new_BuiltinType_def)
  from ls(1) obtain l where l: "ls = [l]"
    "\<exists>mn tn mt. get ?v ''Name'' = Some mn \<and> get ?v ''TypeName'' = Some tn \<and>
        map_of seed_types (stripTypename tn) = Some mt \<and>
        l = member_line (truthy (get ?v ''LengthField'')) (name mt) (protected_identifier mn)"
    by (auto simp: list_all2_Cons1)
  from l(2) m have "l = member_line True ''String'' ''Values''"
    by (auto simp: example_array_field_def get_def stripTypename_def truthy_def
        protected_identifier_def idl_keywords_def)
  with ls(2) l(1) have t: "typedef_idl ?T =
     Inr (Some ([CHR 0x09] @ '' struct S {'' @ [CHR 0x0A] @
                [CHR 0x09, CHR 0x09] @ ''ListOfString Values;'' @ [CHR 0x0A] @
                [CHR 0x09] @ ''};''))"
    by (simp add: member_line_def protected_identifier_def idl_keywords_def
        del: typedef_idl.simps)
  from h1 h2 [unfolded ch] e t show ?thesis by (intro conjI)
qed

subsection \<open>Records named by a reserved word\<close>

text \<open>
  The loop tests \<^verbatim>\<open>name in types\<close> with the name of the record, and stores an
  enumeration or a structure under its sanitized name. A record named by a reserved word
  is therefore never found in the registry, and its entry is assigned again.
\<close>

lemma seed_length: "length seed_types = 25"
  by (simp add: seed_types_eq builtin_types_def)

text \<open>
  C9. On the records [Opaque \<open>_string\<close>, Enumeration \<open>string\<close>] the first record
  inserts an opaque type under the key \<open>_string\<close>, and the second record, in the same
  pass, replaces that entry by an enumeration type.
\<close>

theorem registry_entry_replaced:
  "process (example_opaque ''_string'') (seed_types, True) =
     Inr (seed_types @ [(''_string'', OpaqueType ''_string'' (Some []))], True) \<and>
   process (example_enum ''string'' [example_value ''a'' ''0''])
     (seed_types @ [(''_string'', OpaqueType ''_string'' (Some []))], True) =
     Inr (seed_types @
       [(''_string'', EnumerationType ''_string'' (Some []) [(''string_a'', Some ''0'')])], True) \<and>
   parseTypeDefinitions
     [example_opaque ''_string'', example_enum ''string'' [example_value ''a'' ''0'']] =
     Some (Inr (seed_types @
       [(''_string'', EnumerationType ''_string'' (Some []) [(''string_a'', Some ''0'')])]))"
proof -
  let ?o = "example_opaque ''_string''"
  let ?e = "example_enum ''string'' [example_value ''a'' ''0'']"
  let ?R1 = "seed_types @ [(''_string'', OpaqueType ''_string'' (Some []))]"
  let ?R2 = "seed_types @
       [(''_string'', EnumerationType ''_string'' (Some []) [(''string_a'', Some ''0'')])]"
  have a: "process ?o (seed_types, True) = Inr (?R1, True)"
    by (simp add: eval_simps)
  have b: "process ?e (?R1, True) = Inr (?R2, True)"
    by (simp add: eval_simps)
  have p: "pass [?o, ?e] (seed_types, True) = Inr (?R2, True)"
    by (simp add: a b)
  have c: "parseTypeDefinitions [?o, ?e] = Some (Inr ?R2)"
    unfolding parseTypeDefinitions_def
    by (subst resolve.simps) (simp add: p del: pass.simps)
  from a b c show ?thesis by (intro conjI)
qed

text \<open>
  C1. On the records [Opaque \<open>_string\<close>, Opaque A, Structured \<open>string\<close> with a field
  of type A] the structure takes the place of the entry \<open>_string\<close>, in front of A: the
  registry returned is not in definition order.
\<close>

theorem definition_order_broken:
  "parseTypeDefinitions
     [example_opaque ''_string'', example_opaque ''A'',
      example_struct ''string'' [example_field ''g'' ''A'']] =
     Some (Inr (seed_types @
       [(''_string'', StructType ''_string'' (Some [])
           [(Some ''g'', StructMember (Some ''g'') (OpaqueType ''A'' (Some [])) False)]),
        (''A'', OpaqueType ''A'' (Some []))])) \<and>
   \<not> definition_order (seed_types @
       [(''_string'', StructType ''_string'' (Some [])
           [(Some ''g'', StructMember (Some ''g'') (OpaqueType ''A'' (Some [])) False)]),
        (''A'', OpaqueType ''A'' (Some []))])"
proof -
  let ?recs = "[example_opaque ''_string'', example_opaque ''A'',
      example_struct ''string'' [example_field ''g'' ''A'']]"
  let ?R = "seed_types @
       [(''_string'', StructType ''_string'' (Some [])
           [(Some ''g'', StructMember (Some ''g'') (OpaqueType ''A'' (Some [])) False)]),
        (''A'', OpaqueType ''A'' (Some []))]"
  have p: "pass ?recs (seed_types, True) = Inr (?R, True)"
    by (simp add: eval_simps)
  have c: "parseTypeDefinitions ?recs = Some (Inr ?R)"
    unfolding parseTypeDefinitions_def
    by (subst resolve.simps) (simp add: p del: pass.simps)
  have d: "\<not> definition_order ?R"
    by (simp add: definition_order_def seed_types_eq builtin_types_def new_BuiltinType_def)
  from c d show ?thesis by (intro conjI)
qed

text \<open>
  C4. An opaque record named by a reserved word: the alias declaration has the sanitized
  name, the list wrapper the name as it is in the schema.
\<close>

theorem opaque_wrapper_not_sanitized:
  "parseTypeDefinitions [example_opaque ''string''] =
     Some (Inr (seed_types @ [(''string'', OpaqueType ''string'' (Some []))])) \<and>
   emit (seed_types @ [(''string'', OpaqueType ''string'' (Some []))]) =
     ([[CHR 0x09] @ ''typedef ByteString _string;'',
       [CHR 0x09] @ ''union ListOfstring switch(boolean) { case true: sequence<string> Content; };''
         @ [CHR 0x0A]], None)"
proof -
  let ?R = "seed_types @ [(''string'', OpaqueType ''string'' (Some []))]"
  have p: "pass [example_opaque ''string''] (seed_types, True) = Inr (?R, True)"
    by (simp add: eval_simps)
  have c: "parseTypeDefinitions [example_opaque ''string''] = Some (Inr ?R)"
    unfolding parseTypeDefinitions_def
    by (subst resolve.simps) (simp add: p del: pass.simps)
  have "emit ?R = emit [(''string'', OpaqueType ''string'' (Some []))]"
    using emit_filter [of ?R "\<lambda>k. k = ''string''"]
    by (simp add: keys_def seed_types_eq builtin_types_def)
  then have e: "emit ?R =
     ([[CHR 0x09] @ ''typedef ByteString _string;'',
       [CHR 0x09] @ ''union ListOfstring switch(boolean) { case true: sequence<string> Content; };''
         @ [CHR 0x0A]], None)"
    by (simp add: builtin_types_def printed_def list_wrapper_def protected_identifier_def
        idl_keywords_def)
  from c e show ?thesis by (intro conjI)
qed

subsection \<open>Records not named by a reserved word\<close>

text \<open>
  Where no record is named by a reserved word, each record is stored under its own name,
  the guard of the loop finds it there, and the registry only gets new entries at its
  end: the entries are never replaced and the registry returned is in definition order.
  In every case the keys that are in the registry stay, at their positions.
\<close>

lemma process_keys_grow:
  assumes "process r (types, fin) = Inr (types', fin')"
  shows "prefix (keys types) (keys types')"
  using assms by (cases rule: process_cases) (simp_all add: keys_setitem)

lemma pass_keys_grow:
  "pass xs (types, fin) = Inr (types', fin') \<Longrightarrow> prefix (keys types) (keys types')"
proof (induction xs arbitrary: types fin)
  case Nil
  then show ?case by simp
next
  case (Cons x xs)
  from Cons.prems obtain t1 f1 where p: "process x (types, fin) = Inr (t1, f1)"
    and q: "pass xs (t1, f1) = Inr (types', fin')"
    by (auto split: sum.splits)
  from process_keys_grow [OF p] Cons.IH [OF q] show ?case
    by (rule prefix_order.trans)
qed

lemma process_appends:
  assumes "process r (types, fin) = Inr (types', fin')"
    and "\<forall>n. get r ''Name'' = Some n \<longrightarrow> n \<notin> set idl_keywords"
  shows "types' = types \<or> (\<exists>n t. get r ''Name'' = Some n \<and> n \<notin> set (keys types) \<and>
           types' = types @ [(n, t)])"
  using assms(1)
proof (cases rule: process_cases)
  case unchanged
  then show ?thesis by simp
next
  case (inserted n t)
  with assms(2) have "name t = n" by (auto simp: protected_identifier_def)
  with inserted show ?thesis by (simp add: setitem_new)
qed

lemma pass_appends:
  assumes "\<forall>r\<in>set xs. \<forall>n. get r ''Name'' = Some n \<longrightarrow> n \<notin> set idl_keywords"
    and "pass xs (types, fin) = Inr (types', fin')"
  shows "prefix types types'"
  using assms
proof (induction xs arbitrary: types fin)
  case Nil
  then show ?case by simp
next
  case (Cons x xs)
  from Cons.prems(2) obtain t1 f1 where p: "process x (types, fin) = Inr (t1, f1)"
    and q: "pass xs (t1, f1) = Inr (types', fin')"
    by (auto split: sum.splits)
  from process_appends [OF p] Cons.prems(1) have "prefix types t1" by auto
  moreover from Cons.IH [OF _ q] Cons.prems(1) have "prefix t1 types'" by simp
  ultimately show ?case by (rule prefix_order.trans)
qed

lemma set_setitem: "x \<in> set (setitem k v d) \<Longrightarrow> x = (k, v) \<or> x \<in> set d"
  by (induction d) (auto split: if_splits)

lemma struct_members_types:
  assumes "struct_members types lfs cs ms = Inr (Some ms')"
    and "\<forall>km\<in>set ms. memberType (snd km) \<in> snd ` set types"
  shows "\<forall>km\<in>set ms'. memberType (snd km) \<in> snd ` set types"
  using assms
proof (induction cs arbitrary: ms)
  case Nil
  then show ?case by simp
next
  case (Cons c cs)
  show ?case
  proof (cases "tag c = Field_tag \<and> get c ''Name'' \<notin> Some ` set lfs")
    case False
    with Cons.prems(1) have "struct_members types lfs cs ms = Inr (Some ms')"
      by (cases "tag c = Field_tag") simp_all
    from Cons.IH [OF this Cons.prems(2)] show ?thesis .
  next
    case True
    with Cons.prems(1) obtain tn mt where tn: "get c ''TypeName'' = Some tn"
      and mt: "map_of types (stripTypename tn) = Some mt"
      by (auto split: option.splits)
    let ?m = "new_StructMember (get c ''Name'') mt (truthy (get c ''LengthField''))"
    let ?ms = "setitem (get c ''Name'') ?m ms"
    from Cons.prems(1) True tn mt have r: "struct_members types lfs cs ?ms = Inr (Some ms')"
      by simp
    from map_of_SomeD [OF mt] have "mt \<in> snd ` set types" by force
    then have "memberType ?m \<in> snd ` set types" by (simp add: new_StructMember_def)
    have "\<forall>km\<in>set ?ms. memberType (snd km) \<in> snd ` set types"
    proof
      fix km assume "km \<in> set ?ms"
      from set_setitem [OF this] show "memberType (snd km) \<in> snd ` set types"
      proof
        assume "km = (get c ''Name'', ?m)"
        then have "snd km = ?m" by simp
        with \<open>memberType ?m \<in> snd ` set types\<close> show ?thesis by (simp only:)
      next
        assume "km \<in> set ms"
        with Cons.prems(2) show ?thesis by blast
      qed
    qed
    from Cons.IH [OF r this] show ?thesis .
  qed
qed

lemma definition_order_from_append:
  "definition_order_from seen (R @ [(k, t)]) =
     (definition_order_from seen R \<and>
      (case t of
         StructType n d ms \<Rightarrow> list_all (\<lambda>km. memberType (snd km) \<in> set seen \<union> snd ` set R) ms
       | _ \<Rightarrow> True))"
  by (induction R arbitrary: seen) (auto simp: Un_commute insert_commute split: Type.splits)

lemma parseStructured_types:
  assumes "parseStructured types n r = Inr (Some t)"
  shows "\<exists>d ms. t = StructType (protected_identifier n) d ms \<and>
           (\<forall>km\<in>set ms. memberType (snd km) \<in> snd ` set types)"
proof -
  from assms obtain ms where
    ms: "struct_members types (lengthfields (children r)) (children r) [] = Inr (Some ms)"
    and t: "t = new_StructType n (last_documentation (children r)) ms"
    by (auto simp: parseStructured_def split: sum.splits option.splits)
  from struct_members_types [OF ms] have "\<forall>km\<in>set ms. memberType (snd km) \<in> snd ` set types"
    by simp
  with t show ?thesis by (simp add: new_StructType_def)
qed

lemma definition_order_append:
  assumes "definition_order R"
    and "\<And>n d ms. t = StructType n d ms \<Longrightarrow> \<forall>km\<in>set ms. memberType (snd km) \<in> snd ` set R"
  shows "definition_order (R @ [(k, t)])"
  using assms
  by (cases t) (simp_all add: definition_order_def definition_order_from_append list_all_iff)

lemma definition_order_append_plain:
  "definition_order R \<Longrightarrow> definition_order (R @ [(k, EnumerationType n d els)])"
  "definition_order R \<Longrightarrow> definition_order (R @ [(k, OpaqueType n d)])"
  by (simp_all add: definition_order_def definition_order_from_append)

lemma process_definition_order:
  assumes p: "process r (types, fin) = Inr (types', fin')"
    and nk: "\<forall>n. get r ''Name'' = Some n \<longrightarrow> n \<notin> set idl_keywords"
    and ord: "definition_order types"
  shows "definition_order types'"
proof (cases "get r ''Name''")
  case None
  with p show ?thesis by (simp add: process_def)
next
  case (Some n)
  with nk have pn: "protected_identifier n = n" by (simp add: protected_identifier_def)
  show ?thesis
  proof (cases "n \<in> set (keys types) \<or> skipType n")
    case True
    with p Some ord show ?thesis by (simp add: process_def)
  next
    case False
    then have new: "n \<notin> set (keys types)" by simp
    consider (e) "tag r = EnumeratedType_tag"
      | (o) "tag r \<noteq> EnumeratedType_tag" "tag r = OpaqueType_tag"
      | (s) "tag r \<noteq> EnumeratedType_tag" "tag r \<noteq> OpaqueType_tag" "tag r = StructuredType_tag"
      | (other) "tag r \<noteq> EnumeratedType_tag" "tag r \<noteq> OpaqueType_tag"
          "tag r \<noteq> StructuredType_tag"
      by blast
    then show ?thesis
    proof cases
      case e
      with p Some False obtain els where
        "types' = setitem n (EnumerationType n (last_documentation (children r)) els) types"
        by (auto simp: process_def parseEnumeration_def new_EnumerationType_def pn
            split: sum.splits)
      with new ord show ?thesis by (simp add: setitem_new definition_order_append_plain)
    next
      case o
      with p Some False have
        "types' = setitem n (OpaqueType n (last_documentation (children r))) types"
        by (auto simp: process_def parseOpaque_def new_OpaqueType_def Let_def)
      with new ord show ?thesis by (simp add: setitem_new definition_order_append_plain)
    next
      case s
      show ?thesis
      proof (cases "parseStructured types n r")
        case (Inl err)
        with p Some False s show ?thesis by (simp add: process_def)
      next
        case (Inr v)
        show ?thesis
        proof (cases v)
          case None
          with p Some False s Inr ord show ?thesis by (simp add: process_def)
        next
          case (Some t)
          with Inr parseStructured_types [of types n r t] obtain d ms where
            t: "t = StructType n d ms"
            "\<forall>km\<in>set ms. memberType (snd km) \<in> snd ` set types"
            by (auto simp: pn)
          from p \<open>get r ''Name'' = Some n\<close> False s Inr Some t(1)
          have "types' = setitem n t types" by (simp add: process_def)
          with new have "types' = types @ [(n, t)]" by (simp add: setitem_new)
          moreover have "definition_order (types @ [(n, t)])"
            by (rule definition_order_append [OF ord]) (use t in auto)
          ultimately show ?thesis by simp
        qed
      qed
    next
      case other
      with p Some False ord show ?thesis by (simp add: process_def)
    qed
  qed
qed

lemma definition_order_seed: "definition_order seed_types"
  by (simp add: definition_order_def seed_types_eq builtin_types_def new_BuiltinType_def)

lemma definition_order_without_keywords:
  assumes nk: "\<forall>r\<in>set recs. \<forall>n. get r ''Name'' = Some n \<longrightarrow> n \<notin> set idl_keywords"
    and res: "parseTypeDefinitions recs = Some (Inr R)"
  shows "definition_order R"
proof (rule resolve_invariant [where I = definition_order and recs = recs and types = seed_types])
  show "resolve recs seed_types = Some (Inr R)"
    using res by (simp add: parseTypeDefinitions_def)
  show "definition_order seed_types" by (rule definition_order_seed)
next
  fix types types' fin
  assume "definition_order types" and "pass recs (types, True) = Inr (types', fin)"
  then show "definition_order types'"
    using pass_invariant [where I = definition_order and recs = recs and xs = recs]
      process_definition_order nk by blast
qed

lemma entries_stable_without_keywords:
  assumes nk: "\<forall>r\<in>set recs. \<forall>n. get r ''Name'' = Some n \<longrightarrow> n \<notin> set idl_keywords"
    and res: "parseTypeDefinitions recs = Some (Inr R)"
    and p: "pass recs (types, fin) = Inr (types', fin')"
  shows "prefix types types'" and "prefix seed_types R"
  by (rule pass_appends [OF nk p]) (rule registry_keeps_seed [OF res])

end
